theory Spec2Isabelle
  imports Main "HOL-Library.Multiset" "HOL-Library.Sublist"
begin

section \<open>The scrape-and-download pipeline of Songs/scrappy_spider.py\<close>

text \<open>
  The theory embeds the pure and the control-flow parts of the browser-automation
  script: the partition of the queries over the workers (\<open>run\<close>), session creation
  with retries (\<open>build_driver\<close>), multi-strategy navigation (\<open>force_nav\<close>), the
  download watcher (\<open>wait_for_download\<close>), query simplification
  (\<open>simplify_query\<close>), the CSV loader (\<open>read_queries\<close>) and the per-worker loop
  (\<open>process_worker\<close>). Everything the script obtains from the browser, the
  filesystem or the clock is an explicit parameter of the model.

  Python strings are modelled as \<open>string\<close>; a character of the model stands for one
  code point below 256.
\<close>

subsection \<open>Exceptions\<close>

datatype exn =
    SessionNotCreatedException string
  | RuntimeError string
  | ZeroDivisionError
  | OtherException string

subsection \<open>Partition of the queries (\<open>run\<close>, lines 450-455)\<close>

text \<open>
  \<^verbatim>\<open>
  buckets = [[] for _ in range(CONCURRENCY)]
  for i, q in enumerate(queries):
      buckets[i % CONCURRENCY].append((i, q))
  ...
  futures = [ex.submit(process_worker, wid, tasks)
             for wid, tasks in enumerate(buckets) if tasks]
  \<close>
  \<open>CONCURRENCY\<close> is the parameter \<open>N\<close>. With \<open>N = 0\<close> the first \<open>i % N\<close> raises.
\<close>

type_synonym task = "nat \<times> string"

fun fill_buckets :: "nat \<Rightarrow> task list \<Rightarrow> task list list \<Rightarrow> exn + task list list" where
  "fill_buckets N [] bs = Inr bs"
| "fill_buckets N ((i, q) # rest) bs =
     (if N = 0 then Inl ZeroDivisionError
      else fill_buckets N rest (bs[i mod N := bs ! (i mod N) @ [(i, q)]]))"

definition buckets :: "nat \<Rightarrow> string list \<Rightarrow> exn + task list list" where
  "buckets N queries = fill_buckets N (enumerate 0 queries) (replicate N [])"

definition spawned :: "task list list \<Rightarrow> (nat \<times> task list) list" where
  "spawned bs = filter (\<lambda>(wid, tasks). tasks \<noteq> []) (enumerate 0 bs)"

subsection \<open>Strings: \<open>strip\<close>, \<open>split\<close>, \<open>in\<close>\<close>

text \<open>
  \<open>str.strip()\<close> removes the characters for which \<open>isspace()\<close> holds from both ends;
  below code point 256 these are 9 to 13, 28 to 32, 133 and 160.
  \<open>split_first sep s\<close> is \<open>s.split(sep)[0]\<close> for a non-empty \<open>sep\<close>: the part of \<open>s\<close>
  before the first occurrence of \<open>sep\<close>, all of \<open>s\<close> when there is none.
  \<open>contains sep s\<close> is \<open>sep in s\<close>.
\<close>

definition isspace :: "char \<Rightarrow> bool" where
  "isspace c = (let n = (of_char c :: nat) in
     (9 \<le> n \<and> n \<le> 13) \<or> (28 \<le> n \<and> n \<le> 32) \<or> n = 133 \<or> n = 160)"

definition lstrip :: "string \<Rightarrow> string" where
  "lstrip s = dropWhile isspace s"

definition rstrip :: "string \<Rightarrow> string" where
  "rstrip s = rev (dropWhile isspace (rev s))"

definition strip :: "string \<Rightarrow> string" where
  "strip s = rstrip (lstrip s)"

fun contains :: "string \<Rightarrow> string \<Rightarrow> bool" where
  "contains sep [] = (sep = [])"
| "contains sep (c # cs) = (prefix sep (c # cs) \<or> contains sep cs)"

fun split_first :: "string \<Rightarrow> string \<Rightarrow> string" where
  "split_first sep [] = []"
| "split_first sep (c # cs) = (if prefix sep (c # cs) then [] else c # split_first sep cs)"

subsection \<open>\<open>simplify_query\<close> (lines 214-227)\<close>

text \<open>
  \<^verbatim>\<open>
  base = q.split(" - ")[0].strip()
  for sep in ["(", "["]:
      if sep in base:
          base = base.split(sep)[0].strip()
  if len(base) > 90:
      base = base[:90]
  return base
  \<close>
  \<open>cut_qualifier sep\<close> is one round of the loop.
\<close>

definition cut_qualifier :: "string \<Rightarrow> string \<Rightarrow> string" where
  "cut_qualifier sep base = (if contains sep base then strip (split_first sep base) else base)"

definition simplify_query :: "string \<Rightarrow> string" where
  "simplify_query q =
     (let base = strip (split_first '' - '' q);
          base = cut_qualifier ''('' base;
          base = cut_qualifier ''['' base
      in if length base > 90 then take 90 base else base)"

text \<open>
  The claim's wording, for comparison with \<open>simplify_query\<close>: the part of the input
  before the first position at which one of the separator tokens \<open>" - "\<close>, \<open>"("\<close>,
  \<open>"["\<close> starts.
\<close>

fun before_first_separator :: "string \<Rightarrow> string" where
  "before_first_separator [] = []"
| "before_first_separator (c # cs) =
     (if prefix '' - '' (c # cs) \<or> c = CHR ''('' \<or> c = CHR ''['' then []
      else c # before_first_separator cs)"

subsection \<open>The query loader \<open>read_queries\<close> (lines 205-212)\<close>

text \<open>
  \<^verbatim>\<open>
  for row in csv.DictReader(f):
      t = (row.get("track_name") or "").strip()
      u = (row.get("artist_name") or row.get("artist_names") or "").strip()
      if not t:
          continue
      yield f"{t} - {u}" if u else t
  \<close>
  A row of the reader is a dictionary from column names to strings; \<open>row.get(k)\<close> is
  \<open>None\<close> for a column the file does not have and for a field a short row leaves out.
  \<open>py_or a b\<close> is \<open>a or b\<close> on such values: \<open>a\<close> unless it is \<open>None\<close> or empty.
\<close>

type_synonym row = "string \<rightharpoonup> string"

definition py_or :: "string option \<Rightarrow> string option \<Rightarrow> string option" where
  "py_or a b = (case a of None \<Rightarrow> b | Some s \<Rightarrow> if s = [] then b else Some s)"

definition or_empty :: "string option \<Rightarrow> string" where
  "or_empty a = (case a of None \<Rightarrow> [] | Some s \<Rightarrow> s)"

definition track_of :: "row \<Rightarrow> string" where
  "track_of row = strip (or_empty (row ''track_name''))"

definition artist_of :: "row \<Rightarrow> string" where
  "artist_of row = strip (or_empty (py_or (row ''artist_name'') (row ''artist_names'')))"

fun read_queries :: "row list \<Rightarrow> string list" where
  "read_queries [] = []"
| "read_queries (row # rows) =
     (let t = track_of row; u = artist_of row
      in if t = [] then read_queries rows
         else (if u \<noteq> [] then t @ '' - '' @ u else t) # read_queries rows)"

subsection \<open>File names: \<open>str(k)\<close>, \<open>Path.stem\<close>, \<open>Path.suffix\<close>\<close>

text \<open>
  \<open>str_nat k\<close> is the decimal rendering \<open>str(k)\<close> of a non-negative integer.
  \<open>rfind c s\<close> is \<open>s.rfind(c)\<close>, with \<open>None\<close> for \<open>-1\<close>. pathlib computes
  \<^verbatim>\<open>
  i = name.rfind('.')
  if 0 < i < len(name) - 1: suffix = name[i:]; stem = name[:i]
  else:                     suffix = '';       stem = name
  \<close>
\<close>

fun str_nat :: "nat \<Rightarrow> string" where
  "str_nat n =
     (if n < 10 then [char_of (48 + n)]
      else str_nat (n div 10) @ [char_of (48 + n mod 10)])"

declare str_nat.simps [simp del]

fun rfind :: "char \<Rightarrow> string \<Rightarrow> nat option" where
  "rfind c [] = None"
| "rfind c (x # xs) =
     (case rfind c xs of
        Some i \<Rightarrow> Some (Suc i)
      | None \<Rightarrow> if x = c then Some 0 else None)"

definition suffix_of :: "string \<Rightarrow> string" where
  "suffix_of name =
     (case rfind CHR ''.'' name of
        None \<Rightarrow> []
      | Some i \<Rightarrow> if 0 < i \<and> i + 1 < length name then drop i name else [])"

definition stem_of :: "string \<Rightarrow> string" where
  "stem_of name =
     (case rfind CHR ''.'' name of
        None \<Rightarrow> name
      | Some i \<Rightarrow> if 0 < i \<and> i + 1 < length name then take i name else name)"

subsection \<open>Collision resolution (\<open>process_worker\<close>, lines 424-433)\<close>

text \<open>
  \<^verbatim>\<open>
  target = DOWNLOADS / got.name
  if target.exists():
      stem, suf = target.stem, target.suffix
      k = 1
      while True:
          cand = DOWNLOADS / f"{stem} ({k}){suf}"
          if not cand.exists():
              target = cand
              break
          k += 1
  \<close>
  The shared directory is the list of the names of its entries. The loop has no bound
  of its own, so it is a partial function: \<open>None\<close> stands for a loop that never ends.
\<close>

definition numbered :: "string \<Rightarrow> string \<Rightarrow> nat \<Rightarrow> string" where
  "numbered stem suf k = stem @ '' ('' @ str_nat k @ '')'' @ suf"

partial_function (option) next_free :: "string list \<Rightarrow> string \<Rightarrow> string \<Rightarrow> nat \<Rightarrow> string option" where
  "next_free dir stem suf k =
     (if numbered stem suf k \<notin> set dir then Some (numbered stem suf k)
      else next_free dir stem suf (k + 1))"

declare next_free.simps [code]

definition resolve_collision :: "string list \<Rightarrow> string \<Rightarrow> string option" where
  "resolve_collision dir name =
     (if name \<in> set dir then next_free dir (stem_of name) (suffix_of name) 1
      else Some name)"

subsection \<open>The browser session\<close>

text \<open>
  The script reaches the browser through the driver's methods only. A method runs on
  the state of the session, changes it, and either returns or raises; the driver is the
  record of the methods \<open>force_nav\<close> calls. \<open>wait_ready\<close> is \<open>_wait_ready(d, 15)\<close>,
  which raises when the document is not ready in time. \<open>both f g\<close> is the Python tuple
  \<open>(f(), g())\<close>: \<open>g\<close> runs only if \<open>f\<close> returned.
\<close>

type_synonym ('s, 'a) act = "'s \<Rightarrow> (exn + 'a) \<times> 's"

record 's driver =
  get :: "string \<Rightarrow> ('s, unit) act"
  execute_script :: "string \<Rightarrow> string \<Rightarrow> ('s, unit) act"
  new_window :: "string \<Rightarrow> ('s, unit) act"
  execute_cdp_cmd :: "string \<Rightarrow> string \<Rightarrow> ('s, unit) act"
  wait_ready :: "('s, unit) act"
  current_url :: "('s, string option) act"

definition both :: "('s, unit) act \<Rightarrow> ('s, unit) act \<Rightarrow> ('s, unit) act" where
  "both f g s = (case f s of (Inl e, s') \<Rightarrow> (Inl e, s') | (Inr _, s') \<Rightarrow> g s')"

subsection \<open>\<open>force_nav\<close> (lines 182-203)\<close>

text \<open>
  \<^verbatim>\<open>
  targets = [
      ("direct", lambda: d.get(url)),
      ("js", lambda: (d.get("about:blank"), d.execute_script("location.href = arguments[0];", url))),
      ("new_tab", lambda: (d.switch_to.new_window("tab"), d.get(url))),
      ("cdp", lambda: (d.get("about:blank"), d.execute_cdp_cmd("Page.navigate", {"url": url}))),
  ]
  last_err = None
  for label, action in targets:
      try:
          action()
          _wait_ready(d, timeout=15)
          if "mp3juice" in (d.current_url or "").lower():
              return
      except Exception as e:
          last_err = e
          continue
  raise last_err or RuntimeError("Failed to navigate to site")
  \<close>
  \<open>lower\<close> is \<open>str.lower()\<close> on code points below 256.
\<close>

definition lower_char :: "char \<Rightarrow> char" where
  "lower_char c =
     (let n = (of_char c :: nat)
      in if (65 \<le> n \<and> n \<le> 90) \<or> (192 \<le> n \<and> n \<le> 222 \<and> n \<noteq> 215) then char_of (n + 32) else c)"

definition lower :: "string \<Rightarrow> string" where
  "lower s = map lower_char s"

definition on_site :: "string option \<Rightarrow> bool" where
  "on_site u = contains ''mp3juice'' (lower (or_empty u))"

definition targets :: "'s driver \<Rightarrow> string \<Rightarrow> (string \<times> ('s, unit) act) list" where
  "targets d url =
     [(''direct'', get d url),
      (''js'', both (get d ''about:blank'') (execute_script d ''location.href = arguments[0];'' url)),
      (''new_tab'', both (new_window d ''tab'') (get d url)),
      (''cdp'', both (get d ''about:blank'') (execute_cdp_cmd d ''Page.navigate'' url))]"

definition attempt :: "'s driver \<Rightarrow> ('s, unit) act \<Rightarrow> ('s, bool) act" where
  "attempt d action s =
     (case action s of
        (Inl e, s1) \<Rightarrow> (Inl e, s1)
      | (Inr _, s1) \<Rightarrow>
          (case wait_ready d s1 of
             (Inl e, s2) \<Rightarrow> (Inl e, s2)
           | (Inr _, s2) \<Rightarrow>
               (case current_url d s2 of
                  (Inl e, s3) \<Rightarrow> (Inl e, s3)
                | (Inr u, s3) \<Rightarrow> (Inr (on_site u), s3))))"

fun nav_loop :: "'s driver \<Rightarrow> (string \<times> ('s, unit) act) list \<Rightarrow> exn option \<Rightarrow> ('s, unit) act" where
  "nav_loop d [] last_err s =
     (Inl (case last_err of Some e \<Rightarrow> e | None \<Rightarrow> RuntimeError ''Failed to navigate to site''), s)"
| "nav_loop d ((label, action) # rest) last_err s =
     (case attempt d action s of
        (Inr True, s') \<Rightarrow> (Inr (), s')
      | (Inr False, s') \<Rightarrow> nav_loop d rest last_err s'
      | (Inl e, s') \<Rightarrow> nav_loop d rest (Some e) s')"

definition force_nav :: "'s driver \<Rightarrow> string \<Rightarrow> ('s, unit) act" where
  "force_nav d url = nav_loop d (targets d url) None"

text \<open>
  \<open>landing\<close> is the body of the \<open>try\<close> up to the address it reads: the action, the
  readiness wait and \<open>d.current_url\<close>. \<open>attempt\<close> is \<open>landing\<close> followed by the test
  of line 197.
\<close>

definition landing :: "'s driver \<Rightarrow> ('s, unit) act \<Rightarrow> ('s, string option) act" where
  "landing d action s =
     (case action s of
        (Inl e, s1) \<Rightarrow> (Inl e, s1)
      | (Inr _, s1) \<Rightarrow>
          (case wait_ready d s1 of
             (Inl e, s2) \<Rightarrow> (Inl e, s2)
           | (Inr _, s2) \<Rightarrow> current_url d s2))"

text \<open>
  The claim's wording, for comparison. The error a failed navigation carries, given the
  outcomes of the attempts in order: \<open>encountered\<close> lists the errors raised. And the
  expected target domain: the host of an address is what stands between \<open>://\<close> and the
  next \<open>/\<close>, \<open>?\<close> or \<open>#\<close>, without user information and port, in lower case; an
  address is on the domain of \<open>SITE_URL\<close> when its host is \<open>mp3juice.co\<close> or ends in
  \<open>.mp3juice.co\<close>. \<open>landed\<close> tells whether an attempt ended on the domain, and
  \<open>same_verdict\<close> whether the test of line 197 and the domain agree on where it ended.
\<close>

definition encountered :: "(exn + 'a) list \<Rightarrow> exn list" where
  "encountered outcomes = concat (map (\<lambda>r. case r of Inl e \<Rightarrow> [e] | Inr _ \<Rightarrow> []) outcomes)"

definition carried_error :: "(exn + 'a) list \<Rightarrow> exn" where
  "carried_error outcomes =
     (if encountered outcomes = [] then RuntimeError ''Failed to navigate to site''
      else last (encountered outcomes))"

fun after_scheme :: "string \<Rightarrow> string option" where
  "after_scheme [] = None"
| "after_scheme (c # cs) =
     (if prefix ''://'' (c # cs) then Some (drop 3 (c # cs)) else after_scheme cs)"

definition url_host :: "string \<Rightarrow> string" where
  "url_host u =
     (case after_scheme u of
        None \<Rightarrow> []
      | Some r \<Rightarrow>
          (let authority = takeWhile (\<lambda>c. c \<notin> set ''/?#'') r;
               hostport = rev (takeWhile (\<lambda>c. c \<noteq> CHR ''@'') (rev authority))
           in lower (takeWhile (\<lambda>c. c \<noteq> CHR '':'') hostport)))"

definition on_domain :: "string option \<Rightarrow> bool" where
  "on_domain u =
     (url_host (or_empty u) = ''mp3juice.co'' \<or> suffix ''.mp3juice.co'' (url_host (or_empty u)))"

definition landed :: "exn + string option \<Rightarrow> bool" where
  "landed r = (case r of Inl e \<Rightarrow> False | Inr u \<Rightarrow> on_domain u)"

definition same_verdict :: "exn + string option \<Rightarrow> bool" where
  "same_verdict r = (case r of Inl e \<Rightarrow> True | Inr u \<Rightarrow> on_site u = on_domain u)"

subsection \<open>The download watcher \<open>wait_for_download\<close> (lines 130-180)\<close>

text \<open>
  The watcher reads the clock and polls a directory that the browser changes meanwhile.
  In the model the clock counts tenths of a time unit, so that \<open>time.sleep(0.2)\<close> and
  \<open>time.sleep(0.3)\<close> advance it by 2 and by 3; a scan of the directory takes no time and
  sees one state of it. The directory is given as its listing at every instant, in the
  order in which \<open>glob\<close> yields the entries. An entry has a name, a modification time
  and a kind; \<open>gone\<close> marks an entry that \<open>glob\<close> still lists and that is removed
  before it is looked at, so that \<open>stat()\<close> raises \<open>FileNotFoundError\<close> and it does not
  exist.

  \<open>is_temp\<close> is the pattern \<open>*.crdownload\<close> of pathlib's \<open>glob\<close>, which also matches
  names that start with a dot.
\<close>

record entry =
  file_name :: string
  st_mtime :: nat
  is_file :: bool
  gone :: bool

type_synonym timed_dir = "nat \<Rightarrow> entry list"

definition is_temp :: "string \<Rightarrow> bool" where
  "is_temp n = suffix ''.crdownload'' n"

definition startswith_dot :: "string \<Rightarrow> bool" where
  "startswith_dot n = (case n of [] \<Rightarrow> False | c # cs \<Rightarrow> c = CHR ''.'')"

definition exists_in :: "entry list \<Rightarrow> string \<Rightarrow> bool" where
  "exists_in d n = (n \<in> set (map file_name (filter (\<lambda>p. \<not> gone p) d)))"

definition is_regular :: "entry list \<Rightarrow> string \<Rightarrow> bool" where
  "is_regular d n = (n \<in> set (map file_name (filter (\<lambda>p. \<not> gone p \<and> is_file p) d)))"

text \<open>
  The partial files of a listing that exist and were modified at or after the
  timestamp, in listing order: the entries the loop below can select.
\<close>

definition partial_since :: "entry list \<Rightarrow> nat \<Rightarrow> entry list" where
  "partial_since d ts =
     filter (\<lambda>p. is_temp (file_name p) \<and> \<not> gone p \<and> ts \<le> st_mtime p) d"

text \<open>
  \<^verbatim>\<open>
  latest = None
  for p in ddir.glob('*.crdownload'):
      try:
          st = p.stat()
      except FileNotFoundError:
          continue
      if st.st_mtime >= new_after_ts:
          if latest is None or st.st_mtime > latest[1]:
              latest = (p, st.st_mtime)
  \<close>
\<close>

fun latest_temp :: "entry list \<Rightarrow> nat \<Rightarrow> (string \<times> nat) option \<Rightarrow> (string \<times> nat) option" where
  "latest_temp [] ts latest = latest"
| "latest_temp (p # ps) ts latest =
     (if \<not> is_temp (file_name p) then latest_temp ps ts latest
      else if gone p then latest_temp ps ts latest
      else if st_mtime p \<ge> ts then
        (case latest of
           None \<Rightarrow> latest_temp ps ts (Some (file_name p, st_mtime p))
         | Some (q, m) \<Rightarrow>
             if st_mtime p > m then latest_temp ps ts (Some (file_name p, st_mtime p))
             else latest_temp ps ts latest)
      else latest_temp ps ts latest)"

text \<open>
  \<^verbatim>\<open>
  for p in ddir.glob('*'):
      if p.name.startswith('.') or p.suffix == '.crdownload':
          continue
      try:
          if p.stat().st_mtime >= new_after_ts and p.is_file():
              return p
      except FileNotFoundError:
          continue
  \<close>
\<close>

fun new_file_scan :: "entry list \<Rightarrow> nat \<Rightarrow> string option" where
  "new_file_scan [] ts = None"
| "new_file_scan (p # ps) ts =
     (if startswith_dot (file_name p) \<or> suffix_of (file_name p) = ''.crdownload''
        then new_file_scan ps ts
      else if gone p then new_file_scan ps ts
      else if st_mtime p \<ge> ts \<and> is_file p then Some (file_name p)
      else new_file_scan ps ts)"

text \<open>
  Phase 1, lines 138-151: the poll for a temporary file, every 0.2, until the deadline.
  The result is the candidate, if any, and the instant at which the loop ends.
\<close>

function phase1 :: "timed_dir \<Rightarrow> nat \<Rightarrow> nat \<Rightarrow> nat \<Rightarrow> string option \<times> nat" where
  "phase1 D ts deadline now =
     (if now < deadline then
        (case latest_temp (D now) ts None of
           Some (p, m) \<Rightarrow> (Some p, now)
         | None \<Rightarrow> phase1 D ts deadline (now + 2))
      else (None, now))"
  by pat_completeness auto
termination
  by (relation "measure (\<lambda>(D, ts, deadline, now). deadline - now)") auto

declare phase1.simps [simp del]

text \<open>
  Phase 2, lines 164-180: \<open>target_stem\<close> is \<open>candidate.name[:-len('.crdownload')]\<close>; the
  poll, every 0.3, is for the instant at which the candidate no longer exists.
\<close>

definition target_stem :: "string \<Rightarrow> string" where
  "target_stem n = take (length n - length ''.crdownload'') n"

function phase2 :: "timed_dir \<Rightarrow> nat \<Rightarrow> nat \<Rightarrow> string \<Rightarrow> nat \<Rightarrow> string option" where
  "phase2 D ts deadline candidate now =
     (if now < deadline then
        (if \<not> exists_in (D now) candidate then
           (if is_regular (D now) (target_stem candidate) then Some (target_stem candidate)
            else (case new_file_scan (D now) ts of
                    Some p \<Rightarrow> Some p
                  | None \<Rightarrow> phase2 D ts deadline candidate (now + 3)))
         else phase2 D ts deadline candidate (now + 3))
      else None)"
  by pat_completeness auto
termination
  by (relation "measure (\<lambda>(D, ts, deadline, candidate, now). deadline - now)") auto

declare phase2.simps [simp del]

text \<open>
  \<open>wait_for_download D ts timeout start\<close> is the call made at the instant \<open>start\<close>:
  \<open>end = time.time() + timeout\<close>. Without a candidate, the scan for a new file is made
  once, when phase 1 has ended.
\<close>

definition wait_for_download :: "timed_dir \<Rightarrow> nat \<Rightarrow> nat \<Rightarrow> nat \<Rightarrow> string option" where
  "wait_for_download D ts timeout start =
     (case phase1 D ts (start + timeout) start of
        (None, t) \<Rightarrow> new_file_scan (D t) ts
      | (Some candidate, t) \<Rightarrow> phase2 D ts (start + timeout) candidate t)"

subsection \<open>Session creation \<open>build_driver\<close> (lines 20-107)\<close>

text \<open>
  \<^verbatim>\<open>
  base_dir = download_dir or DOWNLOADS
  base_dir.mkdir(parents=True, exist_ok=True)
  ...
  cache_root.mkdir(parents=True, exist_ok=True)
  user_data = None
  ...
  last_err = None
  for attempt in range(3):
      try:
          if user_data is not None and Path(user_data).exists():
              shutil.rmtree(user_data, ignore_errors=True)
          user_data = tempfile.mkdtemp(prefix="chromium_profile_", dir=str(cache_root))
          try:
              ...
              d = webdriver.Chrome(service=service, options=opts2)
              d._temp_user_data = user_data
              return d
          except SessionNotCreatedException as e:
              last_err = e
              continue
      except SessionNotCreatedException as e:
          last_err = e
          time.sleep(1)
          continue
  raise last_err or RuntimeError("Failed to create Chrome session after retries")
  \<close>
  The machine is a record of what the calls into it do. \<open>mkdir_base\<close> and
  \<open>mkdir_cache\<close> are the exceptions the two \<open>mkdir\<close> calls of lines 22 and 25 raise, if
  any; they are made before the loop and outside every handler. \<open>mkdtemp\<close> is given the
  profile directories that exist and returns the one it creates, or raises.
  \<open>rmtree\<close> tells whether the removal of a directory takes effect: with
  \<open>ignore_errors=True\<close> it never raises. \<open>chrome\<close> is \<open>webdriver.Chrome\<close> at a
  given attempt, started on a given profile directory.

  The result keeps, beside the driver or the exception, the profile directories that
  exist at the end and one entry per launch of the browser: the profile directory the
  launch was given and the directories that existed just before that one was created.
\<close>

record 'd host =
  mkdir_base :: "exn option"
  mkdir_cache :: "exn option"
  mkdtemp :: "string list \<Rightarrow> exn + string"
  rmtree :: "string \<Rightarrow> bool"
  chrome :: "nat \<Rightarrow> string \<Rightarrow> exn + 'd"

record 'd build_result =
  outcome :: "exn + 'd \<times> string"
  launches :: "(string \<times> string list) list"
  profiles :: "string list"

fun is_session_not_created :: "exn \<Rightarrow> bool" where
  "is_session_not_created (SessionNotCreatedException m) = True"
| "is_session_not_created e = False"

fun build_loop ::
  "'d host \<Rightarrow> nat list \<Rightarrow> string option \<Rightarrow> exn option \<Rightarrow> string list \<Rightarrow>
   (string \<times> string list) list \<Rightarrow> 'd build_result" where
  "build_loop h [] user_data last_err fs acc =
     \<lparr>outcome = Inl (case last_err of
                       Some e \<Rightarrow> e
                     | None \<Rightarrow> RuntimeError ''Failed to create Chrome session after retries''),
      launches = acc, profiles = fs\<rparr>"
| "build_loop h (a # later) user_data last_err fs acc =
     (let fs1 = (case user_data of
                   None \<Rightarrow> fs
                 | Some u \<Rightarrow> if u \<in> set fs \<and> rmtree h u then removeAll u fs else fs)
      in case mkdtemp h fs1 of
           Inl e \<Rightarrow>
             if is_session_not_created e then build_loop h later user_data (Some e) fs1 acc
             else \<lparr>outcome = Inl e, launches = acc, profiles = fs1\<rparr>
         | Inr u \<Rightarrow>
             (case chrome h a u of
                Inr d \<Rightarrow> \<lparr>outcome = Inr (d, u), launches = acc @ [(u, fs1)], profiles = u # fs1\<rparr>
              | Inl e \<Rightarrow>
                  if is_session_not_created e
                  then build_loop h later (Some u) (Some e) (u # fs1) (acc @ [(u, fs1)])
                  else \<lparr>outcome = Inl e, launches = acc @ [(u, fs1)], profiles = u # fs1\<rparr>))"

definition build_driver :: "'d host \<Rightarrow> string list \<Rightarrow> 'd build_result" where
  "build_driver h fs =
     (case mkdir_base h of
        Some e \<Rightarrow> \<lparr>outcome = Inl e, launches = [], profiles = fs\<rparr>
      | None \<Rightarrow>
          (case mkdir_cache h of
             Some e \<Rightarrow> \<lparr>outcome = Inl e, launches = [], profiles = fs\<rparr>
           | None \<Rightarrow> build_loop h [0, 1, 2] None None fs []))"

subsection \<open>The download directories\<close>

text \<open>
  The files of the run are the entries of \<open>DOWNLOADS\<close>, the directory all workers
  share, and of the directories \<open>DOWNLOADS/worker_k\<close> of the workers; a file is a place
  and a name. \<open>choose_target\<close> is lines 424-433, the choice of a name in the shared
  directory for a completed file. \<open>move_file\<close> is what \<open>shutil.move\<close> of line 435 does
  when it returns: the file leaves its place and takes the target, where it replaces a
  file of that name.
\<close>

datatype place = Shared | Worker nat

type_synonym path = "place \<times> string"

type_synonym files = "path list"

definition shared_names :: "files \<Rightarrow> string list" where
  "shared_names fs = map snd (filter (\<lambda>p. fst p = Shared) fs)"

definition choose_target :: "files \<Rightarrow> string \<Rightarrow> string option" where
  "choose_target fs got = resolve_collision (shared_names fs) got"

definition move_file :: "files \<Rightarrow> path \<Rightarrow> path \<Rightarrow> files" where
  "move_file fs src dst = dst # removeAll dst (removeAll src fs)"

text \<open>
  The file the watcher reports is in the worker's directory: the browser put it there.
\<close>

definition with_download :: "nat \<Rightarrow> string \<Rightarrow> files \<Rightarrow> files" where
  "with_download wid got fs = (if (Worker wid, got) \<in> set fs then fs else (Worker wid, got) # fs)"

subsection \<open>The worker loop \<open>process_worker\<close> (lines 249-442)\<close>

text \<open>
  What the site, the browser and the filesystem do to a worker is a record of
  outcomes, one field per stage of the loop body, indexed by the worker or by the
  global index of the query:
  \<^item> \<open>host_of\<close>, \<open>profiles_at\<close>: the machine \<open>build_driver\<close> runs on and the profile
    directories that exist when the worker starts (line 254);
  \<^item> \<open>nav_home\<close>: the exception \<open>force_nav(d, SITE_URL)\<close> of line 260 raises, if any;
  \<^item> \<open>search_here\<close>: the exception the search of line 359 raises, if any;
  \<^item> \<open>results\<close>: lines 362-365, the wait for a result block and the listing of the
    blocks: an exception, or whether the list is non-empty;
  \<^item> \<open>locate_result\<close>: lines 368-384, from the choice of the target block to the
    download link;
  \<^item> \<open>trigger_download\<close>: lines 385-419, the click, the watch for a new file and the
    closing of new tabs;
  \<^item> \<open>await_download\<close>: \<open>wait_for_download\<close> at line 422: an exception, or the name
    of the file found in the worker's directory, if any;
  \<^item> \<open>move_raises\<close>: the exception \<open>shutil.move\<close> of line 435 raises, if any, with what
    the interrupted move has done to the files by then;
  \<^item> \<open>quit\<close>: the exception \<open>d.quit()\<close> raises in \<open>cleanup_driver\<close>, if any.

  A worker prints one line when it starts a query and one line for its outcome. The
  line for a download shows \<open>target.name\<close>, a name without its directory.
\<close>

record 'd site =
  host_of :: "nat \<Rightarrow> 'd host"
  profiles_at :: "nat \<Rightarrow> string list"
  nav_home :: "nat \<Rightarrow> exn option"
  search_here :: "nat \<Rightarrow> string \<Rightarrow> exn option"
  results :: "nat \<Rightarrow> exn + bool"
  locate_result :: "nat \<Rightarrow> exn option"
  trigger_download :: "nat \<Rightarrow> exn option"
  await_download :: "nat \<Rightarrow> exn + string option"
  move_raises :: "nat \<Rightarrow> (exn \<times> (files \<Rightarrow> files)) option"
  quit :: "nat \<Rightarrow> exn option"

datatype line =
    Query nat string
  | NoResults nat
  | Downloaded nat string
  | NoCompletedFile nat

text \<open>
  \<^verbatim>\<open>
  got = wait_for_download(new_after_ts=click_time, timeout=120, download_dir=worker_dir)
  if got:
      target = DOWNLOADS / got.name
      if target.exists():
          ...
      try:
          shutil.move(str(got), str(target))
      except Exception:
          target = got
      print(f"[{global_idx+1}] -> Downloaded: {target.name}")
  else:
      print(f"[{global_idx+1}] -> Warning: No completed file detected")
  \<close>
  \<open>place_download\<close> is the branch taken for a file: the name printed and the files
  afterwards. \<open>None\<close> stands for a loop of line 428 that never ends.
\<close>

definition place_download :: "'d site \<Rightarrow> nat \<Rightarrow> nat \<Rightarrow> string \<Rightarrow> files \<Rightarrow> (string \<times> files) option" where
  "place_download env wid i got fs =
     (case choose_target fs got of
        None \<Rightarrow> None
      | Some name \<Rightarrow>
          (case move_raises env i of
             None \<Rightarrow> Some (name, move_file fs (Worker wid, got) (Shared, name))
           | Some (e, left) \<Rightarrow> Some (got, left fs)))"

text \<open>
  One round of the loop of line 356: the lines printed, the exception that leaves the
  round, if any, and the files afterwards.
\<close>

definition handle_query ::
  "'d site \<Rightarrow> nat \<Rightarrow> task \<Rightarrow> files \<Rightarrow> (line list \<times> exn option \<times> files) option" where
  "handle_query env wid t fs =
     (case t of (i, q) \<Rightarrow>
       (case search_here env i q of
          Some e \<Rightarrow> Some ([Query i q], Some e, fs)
        | None \<Rightarrow>
       (case results env i of
          Inl e \<Rightarrow> Some ([Query i q], Some e, fs)
        | Inr False \<Rightarrow> Some ([Query i q, NoResults i], None, fs)
        | Inr True \<Rightarrow>
       (case locate_result env i of
          Some e \<Rightarrow> Some ([Query i q], Some e, fs)
        | None \<Rightarrow>
       (case trigger_download env i of
          Some e \<Rightarrow> Some ([Query i q], Some e, fs)
        | None \<Rightarrow>
       (case await_download env i of
          Inl e \<Rightarrow> Some ([Query i q], Some e, fs)
        | Inr None \<Rightarrow> Some ([Query i q, NoCompletedFile i], None, fs)
        | Inr (Some got) \<Rightarrow>
       (case place_download env wid i got (with_download wid got fs) of
          None \<Rightarrow> None
        | Some (name, fs') \<Rightarrow> Some ([Query i q, Downloaded i name], None, fs'))))))))"

fun run_tasks ::
  "'d site \<Rightarrow> nat \<Rightarrow> task list \<Rightarrow> files \<Rightarrow> (line list \<times> exn option \<times> files) option" where
  "run_tasks env wid [] fs = Some ([], None, fs)"
| "run_tasks env wid (t # rest) fs =
     (case handle_query env wid t fs of
        None \<Rightarrow> None
      | Some (ls, Some e, fs1) \<Rightarrow> Some (ls, Some e, fs1)
      | Some (ls, None, fs1) \<Rightarrow>
          (case run_tasks env wid rest fs1 of
             None \<Rightarrow> None
           | Some (ls', r, fs2) \<Rightarrow> Some (ls @ ls', r, fs2)))"

text \<open>
  \<^verbatim>\<open>
  d = build_driver(download_dir=worker_dir)
  try:
      time.sleep(0.25 * worker_id)
      if tasks:
          force_nav(d, SITE_URL)
          grant_notifications(d)
      ...
      for global_idx, query in tasks:
          ...
  finally:
      cleanup_driver(d)
  \<close>
  \<open>build_driver\<close> is called before the \<open>try\<close>. An exception of \<open>d.quit()\<close> in the
  \<open>finally\<close> block replaces the one that was on its way.
\<close>

record worker_result =
  printed :: "line list"
  raised :: "exn option"
  cleaned :: bool

definition process_worker ::
  "'d site \<Rightarrow> nat \<Rightarrow> task list \<Rightarrow> files \<Rightarrow> (worker_result \<times> files) option" where
  "process_worker env wid tasks fs =
     (case outcome (build_driver (host_of env wid) (profiles_at env wid)) of
        Inl e \<Rightarrow> Some (\<lparr>printed = [], raised = Some e, cleaned = False\<rparr>, fs)
      | Inr d \<Rightarrow>
          (case (if tasks \<noteq> []
                 then (case nav_home env wid of
                         Some e \<Rightarrow> Some ([], Some e, fs)
                       | None \<Rightarrow> run_tasks env wid tasks fs)
                 else run_tasks env wid tasks fs) of
             None \<Rightarrow> None
           | Some (ls, r, fs') \<Rightarrow>
               Some (\<lparr>printed = ls,
                      raised = (case quit env wid of Some e \<Rightarrow> Some e | None \<Rightarrow> r),
                      cleaned = True\<rparr>, fs')))"

subsection \<open>Two workers at lines 424-435\<close>

text \<open>
  The workers are threads, and nothing orders the look of one worker at the shared
  directory (lines 424-433) and the move of another (line 435). A schedule is a list of
  such steps; \<open>got w\<close> is the name of the file worker \<open>w\<close> has completed. The state is
  the target each worker has chosen and the files.
\<close>

datatype step = Look nat | Move nat

fun interleave ::
  "(nat \<Rightarrow> string) \<Rightarrow> step list \<Rightarrow> (nat \<times> string) list \<times> files \<Rightarrow>
   ((nat \<times> string) list \<times> files) option" where
  "interleave got [] st = Some st"
| "interleave got (Look w # rest) (chosen, fs) =
     (case choose_target fs (got w) of
        None \<Rightarrow> None
      | Some name \<Rightarrow> interleave got rest ((w, name) # chosen, fs))"
| "interleave got (Move w # rest) (chosen, fs) =
     (case map_of chosen w of
        None \<Rightarrow> interleave got rest (chosen, fs)
      | Some name \<Rightarrow>
          interleave got rest (chosen, move_file fs (Worker w, got w) (Shared, name)))"

subsection \<open>The orchestrator \<open>run\<close> (lines 444-461)\<close>

text \<open>
  \<^verbatim>\<open>
  queries = list(read_queries())
  if not queries:
      print("No queries to process.")
      return
  print(f"Total queries: {len(queries)} | Concurrency: {CONCURRENCY}")
  ... buckets ...
  with ThreadPoolExecutor(max_workers=CONCURRENCY) as ex:
      futures = [ex.submit(process_worker, wid, tasks) for wid, tasks in enumerate(buckets) if tasks]
      for fut in as_completed(futures):
          try:
              fut.result()
          except Exception as e:
              print(f"Worker error: {e}")
  print(f"Done. Files saved to: {DOWNLOADS}")
  \<close>
  \<open>run\<close> returns nothing and keeps no count; all it leaves is what is printed and
  the files. The model runs the workers one after another, in the order of the
  workers, each on the files the one before left (the threads may interleave
  otherwise), and gives the lines printed, the workers' lines before the lines of
  \<open>run\<close> about them, the exception that leaves \<open>run\<close>, if any, and the files. \<open>None\<close>
  stands for a worker that never ends.
\<close>

datatype out =
    NoQueriesToProcess
  | Total nat nat
  | Printed line
  | WorkerError exn
  | Done

definition worker_errors :: "worker_result list \<Rightarrow> out list" where
  "worker_errors rs =
     concat (map (\<lambda>r. case raised r of Some e \<Rightarrow> [WorkerError e] | None \<Rightarrow> []) rs)"

fun run_workers ::
  "'d site \<Rightarrow> (nat \<times> task list) list \<Rightarrow> files \<Rightarrow> (worker_result list \<times> files) option" where
  "run_workers env [] fs = Some ([], fs)"
| "run_workers env ((wid, tasks) # rest) fs =
     (case process_worker env wid tasks fs of
        None \<Rightarrow> None
      | Some (r, fs1) \<Rightarrow>
          (case run_workers env rest fs1 of
             None \<Rightarrow> None
           | Some (rs, fs2) \<Rightarrow> Some (r # rs, fs2)))"

definition run ::
  "'d site \<Rightarrow> nat \<Rightarrow> string list \<Rightarrow> files \<Rightarrow> (out list \<times> exn option \<times> files) option" where
  "run env N queries fs =
     (if queries = [] then Some ([NoQueriesToProcess], None, fs)
      else case buckets N queries of
             Inl e \<Rightarrow> Some ([Total (length queries) N], Some e, fs)
           | Inr bs \<Rightarrow>
               (case run_workers env (spawned bs) fs of
                  None \<Rightarrow> None
                | Some (rs, fs') \<Rightarrow>
                    Some ([Total (length queries) N]
                          @ map Printed (concat (map printed rs))
                          @ worker_errors rs
                          @ [Done], None, fs')))"

text \<open>
  The outcome lines of a run, counted: downloads, queries whose file was never
  detected, and queries without results.
\<close>

fun is_outcome :: "out \<Rightarrow> bool" where
  "is_outcome (Printed (Downloaded i n)) = True"
| "is_outcome (Printed (NoCompletedFile i)) = True"
| "is_outcome (Printed (NoResults i)) = True"
| "is_outcome x = False"

fun is_downloaded :: "out \<Rightarrow> bool" where
  "is_downloaded (Printed (Downloaded i n)) = True"
| "is_downloaded x = False"

fun is_failed :: "out \<Rightarrow> bool" where
  "is_failed (Printed (NoCompletedFile i)) = True"
| "is_failed x = False"

fun is_skipped :: "out \<Rightarrow> bool" where
  "is_skipped (Printed (NoResults i)) = True"
| "is_skipped x = False"

definition downloaded :: "out list \<Rightarrow> nat" where
  "downloaded os = length (filter is_downloaded os)"

definition failed :: "out list \<Rightarrow> nat" where
  "failed os = length (filter is_failed os)"

definition skipped :: "out list \<Rightarrow> nat" where
  "skipped os = length (filter is_skipped os)"

text \<open>The number of outcome lines among the lines of a worker.\<close>

definition outcomes :: "line list \<Rightarrow> nat" where
  "outcomes ls = length (filter is_outcome (map Printed ls))"

text \<open>
  \<open>ran env w r\<close>: \<open>r\<close> is the result of \<open>process_worker\<close> on the tasks of the worker
  \<open>w\<close>, on some state of the files.
\<close>

definition ran :: "'d site \<Rightarrow> nat \<times> task list \<Rightarrow> worker_result \<Rightarrow> bool" where
  "ran env w r = (\<exists>fs fs'. process_worker env (fst w) (snd w) fs = Some (r, fs'))"

subsection \<open>Concrete inputs\<close>

text \<open>A row whose \<open>artist_name\<close> is blank and whose \<open>artist_names\<close> is not.\<close>

definition claimed_row :: row where
  "claimed_row = [''track_name'' \<mapsto> ''X'', ''artist_name'' \<mapsto> '' '', ''artist_names'' \<mapsto> ''Y'']"

text \<open>
  Three sessions whose state is the address shown. In the first every load ends on
  another site and nothing raises. In the second a direct load raises, and a load
  started from a script reaches the site. In the third every load ends on another
  site, at an address that mentions the name of the expected one.
\<close>

definition elsewhere_driver :: "string driver" where
  "elsewhere_driver =
     \<lparr>get = (\<lambda>url s. (Inr (), ''https://example.org/'')),
      execute_script = (\<lambda>script arg s. (Inr (), s)),
      new_window = (\<lambda>kind s. (Inr (), s)),
      execute_cdp_cmd = (\<lambda>cmd arg s. (Inr (), s)),
      wait_ready = (\<lambda>s. (Inr (), s)),
      current_url = (\<lambda>s. (Inr (Some s), s))\<rparr>"

definition script_driver :: "string driver" where
  "script_driver =
     \<lparr>get = (\<lambda>url s. if url = ''about:blank'' then (Inr (), url)
                       else (Inl (OtherException ''net::ERR_BLOCKED''), s)),
      execute_script = (\<lambda>script arg s. (Inr (), arg)),
      new_window = (\<lambda>kind s. (Inr (), s)),
      execute_cdp_cmd = (\<lambda>cmd arg s. (Inr (), arg)),
      wait_ready = (\<lambda>s. (Inr (), s)),
      current_url = (\<lambda>s. (Inr (Some s), s))\<rparr>"

definition mention_driver :: "string driver" where
  "mention_driver =
     \<lparr>get = (\<lambda>url s. (Inr (), ''https://evil.example.org/?q=MP3Juice'')),
      execute_script = (\<lambda>script arg s. (Inr (), s)),
      new_window = (\<lambda>kind s. (Inr (), s)),
      execute_cdp_cmd = (\<lambda>cmd arg s. (Inr (), s)),
      wait_ready = (\<lambda>s. (Inr (), s)),
      current_url = (\<lambda>s. (Inr (Some s), s))\<rparr>"

text \<open>
  A machine on which sessions start, and one on which every launch finds the profile
  in use and no profile directory can be removed. On both, \<open>mkdtemp\<close> makes a name
  longer than every name that exists.
\<close>

definition fresh_name :: "string list \<Rightarrow> string" where
  "fresh_name fs = ''chromium_profile_'' @ concat fs"

definition good_host :: "nat host" where
  "good_host =
     \<lparr>mkdir_base = None,
      mkdir_cache = None,
      mkdtemp = (\<lambda>fs. Inr (fresh_name fs)),
      rmtree = (\<lambda>u. True),
      chrome = (\<lambda>a u. Inr 0)\<rparr>"

definition locked_host :: "nat host" where
  "locked_host =
     \<lparr>mkdir_base = None,
      mkdir_cache = None,
      mkdtemp = (\<lambda>fs. Inr (fresh_name fs)),
      rmtree = (\<lambda>u. False),
      chrome = (\<lambda>a u. Inl (SessionNotCreatedException (''profile in use, attempt '' @ str_nat a)))\<rparr>"

text \<open>
  A site on which the search for query 2 raises, query 3 has no results, the download
  of query 5 is never detected and the move of the file of query 1 raises and leaves
  the files as they were; every other download gives a file \<open>Song.mp3\<close>.
  \<open>moving_site\<close> is the same site with moves that never raise. \<open>locked_site\<close> is the
  same site with a search that never raises, seen from a machine on which worker 0
  cannot start a session. At the start the shared directory holds the directories of
  two workers and a file \<open>Song.mp3\<close>.
\<close>

definition demo_site :: "nat site" where
  "demo_site =
     \<lparr>host_of = (\<lambda>w. good_host),
      profiles_at = (\<lambda>w. []),
      nav_home = (\<lambda>w. None),
      search_here = (\<lambda>i q. if i = 2 then Some (OtherException ''TimeoutException'') else None),
      results = (\<lambda>i. Inr (i \<noteq> 3)),
      locate_result = (\<lambda>i. None),
      trigger_download = (\<lambda>i. None),
      await_download = (\<lambda>i. Inr (if i = 5 then None else Some ''Song.mp3'')),
      move_raises = (\<lambda>i. if i = 1 then Some (OtherException ''PermissionError'', (\<lambda>fs. fs)) else None),
      quit = (\<lambda>w. None)\<rparr>"


definition locked_site :: "nat site" where
  "locked_site =
     demo_site\<lparr>host_of := (\<lambda>w. if w = 0 then locked_host else good_host),
               search_here := (\<lambda>i q. None)\<rparr>"

definition start_files :: files where
  "start_files = [(Shared, ''worker_1''), (Shared, ''worker_2''), (Shared, ''Song.mp3'')]"

definition seven :: "string list" where
  "seven = [''q0'', ''q1'', ''q2'', ''q3'', ''q4'', ''q5'', ''q6'']"

text \<open>
  Histories of a download directory, in tenths of a time unit. In the first a file
  \<open>x.part\<close> appears at 1.0 and is replaced by \<open>x.mp3\<close> at 5.0. In the second a
  partial file \<open>x.mp3.crdownload\<close> appears at 1.0 and is replaced by \<open>x.mp3\<close> at
  9.8. In the third the directory holds a partial file older than the click, and from
  1.0 two newer ones, of which \<open>x.mp3.crdownload\<close> is modified last and is replaced by
  \<open>x.mp3\<close> at 5.0.
\<close>

definition file_at :: "string \<Rightarrow> nat \<Rightarrow> entry" where
  "file_at n t = \<lparr>file_name = n, st_mtime = t, is_file = True, gone = False\<rparr>"

definition part_dir :: timed_dir where
  "part_dir t = (if t < 10 then [] else if t < 50 then [file_at ''x.part'' 10]
                 else [file_at ''x.mp3'' 50])"

definition late_dir :: timed_dir where
  "late_dir t = (if t < 10 then [] else if t < 98 then [file_at ''x.mp3.crdownload'' 10]
                 else [file_at ''x.mp3'' 98])"

definition busy_dir :: timed_dir where
  "busy_dir t =
     (if t < 10 then [file_at ''old.mp3.crdownload'' 3]
      else if t < 50 then [file_at ''old.mp3.crdownload'' 3, file_at ''a.mp3.crdownload'' 9,
                           file_at ''x.mp3.crdownload'' 10]
      else [file_at ''old.mp3.crdownload'' 3, file_at ''a.mp3.crdownload'' 9,
            file_at ''x.mp3'' 50])"

text \<open>
  Two workers, each with a completed file \<open>Song.mp3\<close> in its own directory, and an
  empty shared directory.
\<close>

definition same_song :: "nat \<Rightarrow> string" where
  "same_song w = ''Song.mp3''"

definition two_downloads :: files where
  "two_downloads = [(Worker 0, ''Song.mp3''), (Worker 1, ''Song.mp3'')]"

section \<open>Properties\<close>

subsection \<open>Partition\<close>

lemma fill_buckets_spec:
  assumes "0 < N" "length bs = N"
  shows "\<exists>bs'. fill_buckets N xs bs = Inr bs' \<and> length bs' = N \<and>
           (\<forall>k<N. bs' ! k = bs ! k @ filter (\<lambda>(i, q). i mod N = k) xs)"
  using assms
proof (induction xs arbitrary: bs)
  case Nil
  then show ?case by simp
next
  case (Cons x xs)
  obtain i q where x: "x = (i, q)" by (cases x)
  let ?bs = "bs[i mod N := bs ! (i mod N) @ [(i, q)]]"
  have len: "length ?bs = N" using Cons.prems by simp
  from Cons.IH [OF Cons.prems(1) len] obtain bs' where
    r: "fill_buckets N xs ?bs = Inr bs'" "length bs' = N"
       "\<forall>k<N. bs' ! k = ?bs ! k @ filter (\<lambda>(i, q). i mod N = k) xs"
    by blast
  have "bs' ! k = bs ! k @ filter (\<lambda>(i, q). i mod N = k) (x # xs)" if "k < N" for k
  proof (cases "i mod N = k")
    case True
    then show ?thesis using r(3) that Cons.prems x by simp
  next
    case False
    then show ?thesis using r(3) that Cons.prems x by simp
  qed
  then show ?case using r(1,2) Cons.prems(1) x by simp
qed

lemma concat_spawned: "concat (map snd (filter (\<lambda>(wid, tasks). tasks \<noteq> []) (enumerate n bs))) = concat bs"
  by (induction bs arbitrary: n) auto

lemma mset_classes:
  "\<forall>x\<in>set xs. f x < N \<Longrightarrow>
   (\<Sum>k\<leftarrow>[0..<N]. mset (filter (\<lambda>x. f x = k) xs)) = mset xs"
proof (induction xs)
  case Nil
  then show ?case by (induction N) auto
next
  case (Cons x xs)
  have one: "(\<Sum>k\<leftarrow>[0..<M]. (if a = k then {#x#} else {#})) = (if a < M then {#x#} else {#})" for a M
    by (induction M) auto
  have "(\<Sum>k\<leftarrow>[0..<N]. mset (filter (\<lambda>y. f y = k) (x # xs)))
      = (\<Sum>k\<leftarrow>[0..<N]. (if f x = k then {#x#} else {#}) + mset (filter (\<lambda>y. f y = k) xs))"
    by (rule arg_cong [where f = sum_list]) (auto intro!: map_cong)
  also have "\<dots> = (\<Sum>k\<leftarrow>[0..<N]. (if f x = k then {#x#} else {#}))
                 + (\<Sum>k\<leftarrow>[0..<N]. mset (filter (\<lambda>y. f y = k) xs))"
    by (simp add: sum_list_addf)
  also have "\<dots> = {#x#} + mset xs"
    using Cons one [of "f x"] by simp
  finally show ?case by simp
qed

lemma buckets_cover:
  assumes "0 < N"
  shows "\<exists>bs. buckets N queries = Inr bs \<and> length bs = N \<and>
           (\<forall>k<N. bs ! k = filter (\<lambda>(i, q). i mod N = k) (enumerate 0 queries)) \<and>
           concat (map snd (spawned bs)) = concat bs \<and>
           mset (concat bs) = mset (enumerate 0 queries)"
proof -
  from fill_buckets_spec [OF assms, of "replicate N []" "enumerate 0 queries"]
  obtain bs where bs: "buckets N queries = Inr bs" "length bs = N"
    and cls: "\<forall>k<N. bs ! k = filter (\<lambda>(i, q). i mod N = k) (enumerate 0 queries)"
    by (auto simp: buckets_def)
  have bs_eq: "bs = map (\<lambda>k. filter (\<lambda>x. fst x mod N = k) (enumerate 0 queries)) [0..<N]"
    using bs(2) cls by (intro nth_equalityI) (auto simp: case_prod_unfold)
  have cc: "concat (map snd (spawned bs)) = concat bs"
    by (simp add: spawned_def concat_spawned)
  have "mset (concat bs) = (\<Sum>k\<leftarrow>[0..<N]. mset (filter (\<lambda>x. fst x mod N = k) (enumerate 0 queries)))"
    by (subst bs_eq) (simp add: mset_concat comp_def)
  also have "\<dots> = mset (enumerate 0 queries)"
    using assms by (intro mset_classes) simp
  finally have ms: "mset (concat bs) = mset (enumerate 0 queries)" .
  show ?thesis using bs cls cc ms by blast
qed

text \<open>
  Claim C2. For every concurrency \<open>N > 0\<close> and every query list, the partition succeeds
  and gives \<open>N\<close> buckets; bucket \<open>k\<close> holds, in input order, exactly the indexed queries
  \<open>(i, q)\<close> with \<open>i mod N = k\<close>; the assignments handed to the workers are the
  non-empty buckets with their bucket number as worker id; together they contain each
  indexed input query once, with no duplicate and no omission; and no spawned worker has
  an empty assignment.
\<close>

theorem partition_assigns_by_modulo:
  assumes "0 < N"
  shows "\<exists>bs. buckets N queries = Inr bs \<and> length bs = N \<and>
           (\<forall>k<N. bs ! k = filter (\<lambda>(i, q). i mod N = k) (enumerate 0 queries)) \<and>
           (\<forall>i<length queries. (i, queries ! i) \<in> set (bs ! (i mod N))) \<and>
           mset (concat (map snd (spawned bs))) = mset (enumerate 0 queries) \<and>
           distinct (concat (map snd (spawned bs))) \<and>
           length (concat (map snd (spawned bs))) = length queries \<and>
           (\<forall>(wid, tasks)\<in>set (spawned bs). tasks \<noteq> [] \<and> wid < N \<and> tasks = bs ! wid)"
proof -
  from buckets_cover [OF assms, of queries]
  obtain bs where bs: "buckets N queries = Inr bs" "length bs = N"
    and cls: "\<forall>k<N. bs ! k = filter (\<lambda>(i, q). i mod N = k) (enumerate 0 queries)"
    and cc: "concat (map snd (spawned bs)) = concat bs"
    and ms: "mset (concat bs) = mset (enumerate 0 queries)"
    by blast
  have dist: "distinct (concat bs)"
    using ms by (metis distinct_enumerate mset_eq_imp_distinct_iff)
  have len: "length (concat bs) = length queries"
    using ms by (metis length_enumerate size_mset)
  have mem: "(i, queries ! i) \<in> set (bs ! (i mod N))" if "i < length queries" for i
  proof -
    have "(i, queries ! i) \<in> set (enumerate 0 queries)"
      using that by (simp add: in_set_enumerate_eq)
    then show ?thesis using cls assms by simp
  qed
  have sp: "tasks \<noteq> [] \<and> wid < N \<and> tasks = bs ! wid" if "(wid, tasks) \<in> set (spawned bs)" for wid tasks
    using that bs(2) by (auto simp: spawned_def in_set_enumerate_eq)
  show ?thesis
    using bs cls cc ms dist len mem sp by (intro exI [of _ bs]) auto
qed

theorem partition_assigns_by_modulo_witness:
  "(0::nat) < 3 \<and>
   buckets 3 [''q0'', ''q1'', ''q2'', ''q3'', ''q4'', ''q5'', ''q6''] =
     Inr [[(0, ''q0''), (3, ''q3''), (6, ''q6'')], [(1, ''q1''), (4, ''q4'')], [(2, ''q2''), (5, ''q5'')]] \<and>
   spawned [[(0, ''q0'')], [], [(2, ''q2'')]] = [(0, [(0, ''q0'')]), (2, [(2, ''q2'')])]"
proof -
  have b: "buckets 3 [''q0'', ''q1'', ''q2'', ''q3'', ''q4'', ''q5'', ''q6''] =
     Inr [[(0, ''q0''), (3, ''q3''), (6, ''q6'')], [(1, ''q1''), (4, ''q4'')], [(2, ''q2''), (5, ''q5'')]]"
    by code_simp
  have s: "spawned [[(0, ''q0'')], [], [(2, ''q2'')]] = [(0, [(0, ''q0'')]), (2, [(2, ''q2'')])]"
    by code_simp
  show ?thesis
    using partition_assigns_by_modulo [of 3 "[''q0'', ''q1'', ''q2'', ''q3'', ''q4'', ''q5'', ''q6'']"] b s
    by simp
qed

subsection \<open>Stripping and cutting\<close>

lemma split_first_single: "split_first [c] s = takeWhile (\<lambda>x. x \<noteq> c) s"
  by (induction s) auto

lemma contains_single: "contains [c] s \<longleftrightarrow> c \<in> set s"
  by (induction s) auto

lemma takeWhile_lstrip:
  "(\<And>x. isspace x \<Longrightarrow> P x) \<Longrightarrow> takeWhile P (lstrip s) = lstrip (takeWhile P s)"
  unfolding lstrip_def by (induction s) auto

lemma rstrip_append:
  assumes "\<exists>x\<in>set v. \<not> isspace x"
  shows "rstrip (u @ v) = u @ rstrip v"
proof -
  from assms obtain x where "x \<in> set (rev v)" "\<not> isspace x" by auto
  then have "dropWhile isspace (rev v @ rev u) = dropWhile isspace (rev v) @ rev u"
    by (rule dropWhile_append1)
  then show ?thesis by (simp add: rstrip_def)
qed

lemma rstrip_idem: "rstrip (rstrip s) = rstrip s"
  unfolding rstrip_def by simp

lemma rstrip_Cons:
  assumes "\<not> isspace x"
  shows "\<exists>r. rstrip (x # rest) = x # r"
proof (cases "\<forall>y\<in>set (rev rest). isspace y")
  case True
  then have "dropWhile isspace (rev rest @ [x]) = dropWhile isspace [x]"
    by (intro dropWhile_append2) auto
  then show ?thesis using assms by (simp add: rstrip_def)
next
  case False
  then obtain y where "y \<in> set (rev rest)" "\<not> isspace y" by blast
  then have "dropWhile isspace (rev rest @ [x]) = dropWhile isspace (rev rest) @ [x]"
    by (rule dropWhile_append1)
  then show ?thesis by (simp add: rstrip_def)
qed

lemma rstrip_all_space: "\<forall>y\<in>set t. isspace y \<Longrightarrow> rstrip t = []"
  by (simp add: rstrip_def)

lemma set_rstrip: "set (rstrip t) \<subseteq> set t"
  unfolding rstrip_def by (metis set_dropWhileD set_rev subsetI)

lemma lstrip_rstrip: "lstrip (rstrip t) = rstrip (lstrip t)"
proof (cases "\<forall>y\<in>set t. isspace y")
  case True
  then have l: "lstrip t = []" by (simp add: lstrip_def)
  have r: "rstrip t = []" using True by (rule rstrip_all_space)
  show ?thesis unfolding l r by (simp add: lstrip_def rstrip_def)
next
  case False
  define a where "a = takeWhile isspace t"
  define w where "w = dropWhile isspace t"
  have t: "t = a @ w" by (simp add: a_def w_def)
  have "w \<noteq> []" using False by (auto simp: w_def)
  then obtain x b where w: "w = x # b" by (cases w) auto
  have nx: "\<not> isspace x" using w hd_dropWhile [of isspace t] by (simp add: w_def)
  from rstrip_Cons [OF nx, of b] obtain r where r: "rstrip (x # b) = x # r" by blast
  have "rstrip t = a @ x # r"
    using rstrip_append [of "x # b" a] nx r by (auto simp: t w)
  moreover have "\<forall>y\<in>set a. isspace y" by (auto simp: a_def dest: set_takeWhileD)
  ultimately have "lstrip (rstrip t) = x # r" using nx by (simp add: lstrip_def)
  moreover have "lstrip t = x # b" using w by (simp add: lstrip_def w_def)
  ultimately show ?thesis using r by simp
qed

lemma lstrip_idem: "lstrip (lstrip s) = lstrip s"
  by (simp add: lstrip_def)

lemma strip_lstrip: "strip (lstrip s) = strip s"
  by (simp add: strip_def lstrip_idem)

lemma strip_rstrip: "strip (rstrip s) = strip s"
  by (simp add: strip_def lstrip_rstrip rstrip_idem)

lemma strip_idem: "strip (strip s) = strip s"
  by (metis strip_def strip_lstrip strip_rstrip)

lemma takeWhile_rstrip:
  assumes "\<And>x. isspace x \<Longrightarrow> P x"
  shows "strip (takeWhile P (rstrip t)) = strip (takeWhile P t)"
proof (cases "\<forall>y\<in>set t. P y")
  case True
  then have "\<forall>y\<in>set (rstrip t). P y" using set_rstrip by blast
  then have "takeWhile P (rstrip t) = rstrip t" by (simp add: takeWhile_eq_all_conv)
  moreover have "takeWhile P t = t" using True by (simp add: takeWhile_eq_all_conv)
  ultimately show ?thesis by (simp only: strip_rstrip)
next
  case False
  define u where "u = takeWhile P t"
  define w where "w = dropWhile P t"
  have t: "t = u @ w" by (simp add: u_def w_def)
  have "w \<noteq> []" using False by (auto simp: w_def)
  then obtain y b where w: "w = y # b" by (cases w) auto
  have ny: "\<not> P y" using w hd_dropWhile [of P t] by (simp add: w_def)
  then have nsy: "\<not> isspace y" using assms by blast
  from rstrip_Cons [OF nsy, of b] obtain r where r: "rstrip (y # b) = y # r" by blast
  have "rstrip t = u @ y # r"
    using rstrip_append [of "y # b" u] nsy r by (auto simp: t w)
  moreover have "\<forall>z\<in>set u. P z" by (auto simp: u_def dest: set_takeWhileD)
  ultimately have "takeWhile P (rstrip t) = u" using ny by (simp add: takeWhile_append2)
  then show ?thesis by (simp add: u_def)
qed

lemma strip_takeWhile:
  assumes "\<And>x. isspace x \<Longrightarrow> P x"
  shows "strip (takeWhile P (strip s)) = strip (takeWhile P s)"
proof -
  have "strip (takeWhile P (strip s)) = strip (takeWhile P (lstrip s))"
    unfolding strip_def [of s] using assms by (rule takeWhile_rstrip)
  also have "\<dots> = strip (lstrip (takeWhile P s))"
    using assms by (simp add: takeWhile_lstrip)
  finally show ?thesis by (simp add: strip_lstrip)
qed

lemma cut_qualifier_single:
  assumes "strip a = a"
  shows "cut_qualifier [c] a = strip (takeWhile (\<lambda>x. x \<noteq> c) a)"
proof (cases "c \<in> set a")
  case True
  then show ?thesis by (simp add: cut_qualifier_def contains_single split_first_single)
next
  case False
  then have tw: "takeWhile (\<lambda>x. x \<noteq> c) a = a" by (auto simp: takeWhile_eq_all_conv)
  have "cut_qualifier [c] a = a" using False by (simp add: cut_qualifier_def contains_single)
  then show ?thesis by (simp only: tw assms)
qed

lemma before_first_separator_eq:
  "before_first_separator q =
     takeWhile (\<lambda>x. x \<noteq> CHR ''['') (takeWhile (\<lambda>x. x \<noteq> CHR ''('') (split_first '' - '' q))"
  by (induction q) auto

lemma isspace_paren: "isspace x \<Longrightarrow> x \<noteq> CHR ''(''" "isspace x \<Longrightarrow> x \<noteq> CHR ''[''"
  by (auto simp: isspace_def)

text \<open>
  Claim C8. For every input string, \<open>simplify_query\<close> returns the input truncated at
  the first separator token (\<open>" - "\<close>, \<open>"("\<close> or \<open>"["\<close>), stripped of surrounding
  whitespace and cut to its first 90 characters; the result never has more than 90
  characters, and \<open>"Imagine - John Lennon (Remastered 2010)"\<close> gives \<open>"Imagine"\<close>.
\<close>

theorem simplify_query_truncates:
  "simplify_query q = take 90 (strip (before_first_separator q)) \<and>
   length (simplify_query q) \<le> 90 \<and>
   simplify_query ''Imagine - John Lennon (Remastered 2010)'' = ''Imagine''"
proof -
  define A where "A = split_first '' - '' q"
  define b1 where "b1 = cut_qualifier ''('' (strip A)"
  have b1: "b1 = strip (takeWhile (\<lambda>x. x \<noteq> CHR ''('') A)"
    unfolding b1_def
    by (simp add: cut_qualifier_single strip_idem strip_takeWhile isspace_paren)
  have b2: "cut_qualifier ''['' b1 = strip (before_first_separator q)"
    by (simp add: b1 cut_qualifier_single strip_idem strip_takeWhile isspace_paren
        before_first_separator_eq A_def)
  have eq: "simplify_query q = take 90 (strip (before_first_separator q))"
    using b2 by (simp add: simplify_query_def Let_def b1_def A_def)
  have ex: "simplify_query ''Imagine - John Lennon (Remastered 2010)'' = ''Imagine''"
    by code_simp
  show ?thesis using eq ex by simp
qed

subsection \<open>The query loader\<close>

text \<open>
  Claim C10 as stated fails: a row whose \<open>artist_name\<close> holds only a blank and whose
  \<open>artist_names\<close> holds \<open>Y\<close> has an artist column that is non-empty after stripping,
  and still yields the bare track name. The \<open>or\<close> of line 209 chooses \<open>artist_name\<close>
  because it is non-empty before stripping.
\<close>

theorem read_queries_blank_artist_name:
  "strip (or_empty (claimed_row ''artist_names'')) = ''Y'' \<and>
   track_of claimed_row = ''X'' \<and>
   read_queries [claimed_row] = [''X'']"
  by (simp add: claimed_row_def track_of_def artist_of_def py_or_def or_empty_def
      strip_def lstrip_def rstrip_def isspace_def)

text \<open>
  Claim C10, amended. The loader yields exactly one query per row whose \<open>track_name\<close>
  is non-empty after stripping, in row order, and skips every other row. The artist of a
  row is the stripped value of \<open>artist_name\<close> if that column is present and non-empty
  before stripping, of \<open>artist_names\<close> otherwise; the query is the track, followed by
  \<open>" - "\<close> and the artist when the artist is non-empty. No yielded query is empty.
\<close>

theorem read_queries_one_per_track:
  "read_queries rows =
     map (\<lambda>row. if artist_of row \<noteq> [] then track_of row @ '' - '' @ artist_of row else track_of row)
         (filter (\<lambda>row. track_of row \<noteq> []) rows) \<and>
   length (read_queries rows) = length (filter (\<lambda>row. track_of row \<noteq> []) rows) \<and>
   [] \<notin> set (read_queries rows) \<and>
   artist_of row =
     strip (case row ''artist_name'' of
              None \<Rightarrow> or_empty (row ''artist_names'')
            | Some s \<Rightarrow> if s = [] then or_empty (row ''artist_names'') else s)"
proof -
  have eq: "read_queries rows =
     map (\<lambda>row. if artist_of row \<noteq> [] then track_of row @ '' - '' @ artist_of row else track_of row)
         (filter (\<lambda>row. track_of row \<noteq> []) rows)"
    by (induction rows) (simp_all add: Let_def)
  have ne: "[] \<notin> set (read_queries rows)"
    unfolding eq by auto
  have ar: "artist_of row =
     strip (case row ''artist_name'' of
              None \<Rightarrow> or_empty (row ''artist_names'')
            | Some s \<Rightarrow> if s = [] then or_empty (row ''artist_names'') else s)"
    by (simp add: artist_of_def py_or_def or_empty_def split: option.splits)
  show ?thesis using eq ne ar by simp
qed

subsection \<open>Collision resolution\<close>

lemma nat_of_str: "foldl (\<lambda>a c. 10 * a + (of_char c - 48)) 0 (str_nat n) = n"
proof (induction n rule: str_nat.induct)
  case (1 n)
  show ?case
  proof (cases "n < 10")
    case True
    then show ?thesis by (subst str_nat.simps) simp
  next
    case False
    then show ?thesis using 1 by (subst str_nat.simps) simp
  qed
qed

lemma str_nat_inj: "str_nat a = str_nat b \<Longrightarrow> a = b"
  by (metis nat_of_str)

lemma numbered_inj: "numbered stem suf a = numbered stem suf b \<Longrightarrow> a = b"
  by (auto simp: numbered_def dest: str_nat_inj)

lemma next_free_least:
  assumes "k0 \<le> k" "numbered stem suf k \<notin> set dir"
    and "\<forall>j. k0 \<le> j \<and> j < k \<longrightarrow> numbered stem suf j \<in> set dir"
  shows "next_free dir stem suf k0 = Some (numbered stem suf k)"
  using assms
proof (induction "k - k0" arbitrary: k0)
  case 0
  then have "k0 = k" by simp
  then show ?case using "0.prems"(2) by (subst next_free.simps) simp
next
  case (Suc d)
  then have lt: "k0 < k" by simp
  then have "numbered stem suf k0 \<in> set dir" using Suc.prems(3) by simp
  moreover have "next_free dir stem suf (k0 + 1) = Some (numbered stem suf k)"
    using Suc.hyps(2) lt Suc.prems by (intro Suc.hyps(1)) auto
  ultimately show ?case by (subst next_free.simps) simp
qed

lemma free_number_exists: "\<exists>k\<ge>k0. numbered stem suf k \<notin> set dir"
proof (rule ccontr)
  assume "\<not> ?thesis"
  then have sub: "numbered stem suf ` {k0..} \<subseteq> set dir" by auto
  have "inj_on (numbered stem suf) {k0..}"
    by (auto simp: inj_on_def dest: numbered_inj)
  then have "infinite (numbered stem suf ` {k0..})"
    by (simp add: finite_image_iff infinite_Ici)
  then show False using sub finite_subset by blast
qed

lemma next_free_total:
  "\<exists>k\<ge>k0. next_free dir stem suf k0 = Some (numbered stem suf k) \<and>
      numbered stem suf k \<notin> set dir \<and>
      (\<forall>j. k0 \<le> j \<and> j < k \<longrightarrow> numbered stem suf j \<in> set dir)"
proof -
  define k where "k = (LEAST k. k0 \<le> k \<and> numbered stem suf k \<notin> set dir)"
  from free_number_exists [of k0 stem suf dir]
  obtain k' where "k0 \<le> k' \<and> numbered stem suf k' \<notin> set dir" by blast
  then have P: "k0 \<le> k \<and> numbered stem suf k \<notin> set dir"
    unfolding k_def by (rule LeastI)
  have least: "numbered stem suf j \<in> set dir" if "k0 \<le> j" "j < k" for j
    using that not_less_Least [of j "\<lambda>k. k0 \<le> k \<and> numbered stem suf k \<notin> set dir"]
    by (auto simp: k_def)
  have "next_free dir stem suf k0 = Some (numbered stem suf k)"
    using P least by (intro next_free_least) auto
  then show ?thesis using P least by blast
qed

lemma stem_suffix: "stem_of name @ suffix_of name = name"
  by (simp add: stem_of_def suffix_of_def split: option.splits)

text \<open>
  On one state of the directory, collision resolution ends and returns a name that no
  entry has: the name itself when no entry has it, and otherwise the stem, \<open>" (k)"\<close>
  and the suffix for the smallest \<open>k \<ge> 1\<close> whose name is free. Stem and suffix are
  pathlib's: together they are the name, and the suffix is the extension.
\<close>

lemma resolve_collision_least_free:
  "\<exists>r. resolve_collision dir name = Some r \<and> r \<notin> set dir \<and>
     (name \<notin> set dir \<longrightarrow> r = name) \<and>
     (name \<in> set dir \<longrightarrow>
        (\<exists>k\<ge>1. r = stem_of name @ '' ('' @ str_nat k @ '')'' @ suffix_of name \<and>
           (\<forall>j. 1 \<le> j \<and> j < k \<longrightarrow>
              stem_of name @ '' ('' @ str_nat j @ '')'' @ suffix_of name \<in> set dir))) \<and>
     stem_of name @ suffix_of name = name"
proof (cases "name \<in> set dir")
  case False
  then show ?thesis by (simp add: resolve_collision_def stem_suffix)
next
  case True
  from next_free_total [of 1 dir "stem_of name" "suffix_of name"]
  obtain k where "1 \<le> k"
    "next_free dir (stem_of name) (suffix_of name) 1 = Some (numbered (stem_of name) (suffix_of name) k)"
    "numbered (stem_of name) (suffix_of name) k \<notin> set dir"
    "\<forall>j. 1 \<le> j \<and> j < k \<longrightarrow> numbered (stem_of name) (suffix_of name) j \<in> set dir"
    by blast
  then show ?thesis using True
    by (auto simp: resolve_collision_def stem_suffix numbered_def)
qed

lemma resolve_collision_song:
  "resolve_collision [] ''Song.mp3'' = Some ''Song.mp3'' \<and>
   resolve_collision [''Song.mp3''] ''Song.mp3'' = Some ''Song (1).mp3'' \<and>
   resolve_collision [''Song.mp3'', ''Song (1).mp3''] ''Song.mp3'' = Some ''Song (2).mp3'' \<and>
   stem_of ''Song.mp3'' = ''Song'' \<and> suffix_of ''Song.mp3'' = ''.mp3''"
  by code_simp

text \<open>
  Claim C6. Collision resolution returns the unchanged name when no file of that name
  exists in the shared directory and otherwise the name with \<open>" (k)"\<close> before the
  extension for the smallest free \<open>k\<close>, so that final names in the shared directory
  are unique. The code keeps this for placements made one after another: the second
  \<open>Song.mp3\<close> becomes \<open>Song (1).mp3\<close>. It breaks it when two workers look at the
  directory before either has moved its file: both choose \<open>Song.mp3\<close>, the second
  move replaces the file of the first, and two downloads end under one name.
\<close>

theorem concurrent_moves_collide:
  "interleave same_song [Look 0, Move 0, Look 1, Move 1] ([], two_downloads) =
     Some ([(1, ''Song (1).mp3''), (0, ''Song.mp3'')],
           [(Shared, ''Song (1).mp3''), (Shared, ''Song.mp3'')]) \<and>
   interleave same_song [Look 0, Look 1, Move 0, Move 1] ([], two_downloads) =
     Some ([(1, ''Song.mp3''), (0, ''Song.mp3'')], [(Shared, ''Song.mp3'')])"
  by code_simp

subsection \<open>Navigation\<close>

lemma attempt_landing:
  "attempt d action s =
     (case landing d action s of (Inl e, s') \<Rightarrow> (Inl e, s') | (Inr u, s') \<Rightarrow> (Inr (on_site u), s'))"
  by (simp add: attempt_def landing_def split: prod.splits sum.splits)

lemma nav_loop_four:
  "nav_loop d [(l1, a1), (l2, a2), (l3, a3), (l4, a4)] None s0 =
    (let r1 = attempt d a1 s0; r2 = attempt d a2 (snd r1);
         r3 = attempt d a3 (snd r2); r4 = attempt d a4 (snd r3)
     in if fst r1 = Inr True then (Inr (), snd r1)
        else if fst r2 = Inr True then (Inr (), snd r2)
        else if fst r3 = Inr True then (Inr (), snd r3)
        else if fst r4 = Inr True then (Inr (), snd r4)
        else (Inl (carried_error [fst r1, fst r2, fst r3, fst r4]), snd r4))"
  by (simp add: Let_def carried_error_def encountered_def split: prod.splits sum.splits bool.splits)

lemma attempt_state: "snd (attempt d a s) = snd (landing d a s)"
  by (simp add: attempt_landing split: prod.splits sum.splits)

lemma attempt_success:
  "same_verdict (fst (landing d a s)) \<Longrightarrow>
   fst (attempt d a s) = Inr True \<longleftrightarrow> landed (fst (landing d a s))"
  by (auto simp: attempt_landing same_verdict_def landed_def split: prod.splits sum.splits)

lemma attempt_errors: "encountered [fst (attempt d a s)] = encountered [fst (landing d a s)]"
  by (auto simp: attempt_landing encountered_def split: prod.splits sum.splits)

lemma encountered_four:
  "encountered [a, b, c, d] = encountered [a] @ encountered [b] @ encountered [c] @ encountered [d]"
  by (simp add: encountered_def)

lemma carried_error_attempts:
  "carried_error [fst (attempt d a1 s1), fst (attempt d a2 s2), fst (attempt d a3 s3), fst (attempt d a4 s4)]
   = carried_error [fst (landing d a1 s1), fst (landing d a2 s2), fst (landing d a3 s3), fst (landing d a4 s4)]"
  unfolding carried_error_def
  by (simp only: encountered_four [of "fst (attempt d a1 s1)"] encountered_four [of "fst (landing d a1 s1)"]
      attempt_errors)

text \<open>
  Claim C7 as stated fails in two ways. When no strategy raises and every load ends on
  another site, \<open>force_nav\<close> raises the error it makes itself,
  \<open>RuntimeError("Failed to navigate to site")\<close>: no error was encountered that it could
  carry. And when the first load ends on another site at an address that contains
  \<open>mp3juice\<close>, \<open>force_nav\<close> returns success although the location is not on the
  expected domain.
\<close>

theorem force_nav_no_error_encountered:
  "force_nav elsewhere_driver ''https://mp3juice.co/'' ''about:start'' =
     (Inl (RuntimeError ''Failed to navigate to site''), ''https://example.org/'') \<and>
   attempt elsewhere_driver (snd (targets elsewhere_driver ''https://mp3juice.co/'' ! 0)) ''about:start'' =
     (Inr False, ''https://example.org/'') \<and>
   attempt elsewhere_driver (snd (targets elsewhere_driver ''https://mp3juice.co/'' ! 1)) ''https://example.org/'' =
     (Inr False, ''https://example.org/'') \<and>
   attempt elsewhere_driver (snd (targets elsewhere_driver ''https://mp3juice.co/'' ! 2)) ''https://example.org/'' =
     (Inr False, ''https://example.org/'') \<and>
   attempt elsewhere_driver (snd (targets elsewhere_driver ''https://mp3juice.co/'' ! 3)) ''https://example.org/'' =
     (Inr False, ''https://example.org/'') \<and>
   encountered [Inr False, Inr False, Inr False, Inr False :: exn + bool] = [] \<and>
   force_nav mention_driver ''https://mp3juice.co/'' ''about:start'' =
     (Inr (), ''https://evil.example.org/?q=MP3Juice'') \<and>
   url_host ''https://evil.example.org/?q=MP3Juice'' = ''evil.example.org'' \<and>
   \<not> on_domain (Some ''https://evil.example.org/?q=MP3Juice'')"
  by code_simp

text \<open>
  Claim C7, amended. \<open>force_nav\<close> has exactly four strategies and tries them in the
  order direct load, script-based redirect, new-tab load, protocol-level command, each
  from the session state the one before left. For every session in which no attempt
  that is made ends on an address that contains \<open>mp3juice\<close> without being on the
  expected domain, \<open>force_nav\<close> returns at the first strategy after which the action
  and the readiness wait returned and the resulting location is on the expected target
  domain, without trying the rest. If all four fail it raises the last error a strategy
  raised, and \<open>RuntimeError("Failed to navigate to site")\<close> when no strategy raised one.
  What happens after an attempt that ends off the domain at an address containing
  \<open>mp3juice\<close> is left open.
\<close>

theorem force_nav_first_success:
  "(let r1 = landing d (get d url) s0;
        r2 = landing d (both (get d ''about:blank'')
               (execute_script d ''location.href = arguments[0];'' url)) (snd r1);
        r3 = landing d (both (new_window d ''tab'') (get d url)) (snd r2);
        r4 = landing d (both (get d ''about:blank'')
               (execute_cdp_cmd d ''Page.navigate'' url)) (snd r3)
    in same_verdict (fst r1) \<and>
       (landed (fst r1) \<or> same_verdict (fst r2) \<and>
       (landed (fst r2) \<or> same_verdict (fst r3) \<and>
       (landed (fst r3) \<or> same_verdict (fst r4))))
       \<longrightarrow>
       force_nav d url s0 =
         (if landed (fst r1) then (Inr (), snd r1)
          else if landed (fst r2) then (Inr (), snd r2)
          else if landed (fst r3) then (Inr (), snd r3)
          else if landed (fst r4) then (Inr (), snd r4)
          else (Inl (carried_error [fst r1, fst r2, fst r3, fst r4]), snd r4))) \<and>
   map fst (targets d url) = [''direct'', ''js'', ''new_tab'', ''cdp''] \<and>
   carried_error [Inl e1, Inr None, Inl e3, Inr None] = e3 \<and>
   carried_error [Inr None, Inr None, Inr None, Inr (None :: string option)] =
     RuntimeError ''Failed to navigate to site''"
proof -
  define a1 where "a1 = get d url"
  define a2 where "a2 = both (get d ''about:blank'') (execute_script d ''location.href = arguments[0];'' url)"
  define a3 where "a3 = both (new_window d ''tab'') (get d url)"
  define a4 where "a4 = both (get d ''about:blank'') (execute_cdp_cmd d ''Page.navigate'' url)"
  define r1 where "r1 = landing d a1 s0"
  define r2 where "r2 = landing d a2 (snd r1)"
  define r3 where "r3 = landing d a3 (snd r2)"
  define r4 where "r4 = landing d a4 (snd r3)"
  have fn: "force_nav d url s0 = nav_loop d [(''direct'', a1), (''js'', a2), (''new_tab'', a3), (''cdp'', a4)] None s0"
    by (simp add: force_nav_def targets_def a1_def a2_def a3_def a4_def)
  have st: "snd (attempt d a1 s0) = snd r1" "snd (attempt d a2 (snd r1)) = snd r2"
    "snd (attempt d a3 (snd r2)) = snd r3" "snd (attempt d a4 (snd r3)) = snd r4"
    by (simp_all add: attempt_state r1_def r2_def r3_def r4_def)
  have ce: "carried_error [fst (attempt d a1 s0), fst (attempt d a2 (snd r1)),
                           fst (attempt d a3 (snd r2)), fst (attempt d a4 (snd r3))]
            = carried_error [fst r1, fst r2, fst r3, fst r4]"
    unfolding r1_def r2_def r3_def r4_def by (rule carried_error_attempts)
  have s1: "fst (attempt d a1 s0) = Inr True \<longleftrightarrow> landed (fst r1)" if "same_verdict (fst r1)"
    using that unfolding r1_def by (rule attempt_success)
  have s2: "fst (attempt d a2 (snd r1)) = Inr True \<longleftrightarrow> landed (fst r2)" if "same_verdict (fst r2)"
    using that unfolding r2_def by (rule attempt_success)
  have s3: "fst (attempt d a3 (snd r2)) = Inr True \<longleftrightarrow> landed (fst r3)" if "same_verdict (fst r3)"
    using that unfolding r3_def by (rule attempt_success)
  have s4: "fst (attempt d a4 (snd r3)) = Inr True \<longleftrightarrow> landed (fst r4)" if "same_verdict (fst r4)"
    using that unfolding r4_def by (rule attempt_success)
  have main: "force_nav d url s0 =
         (if landed (fst r1) then (Inr (), snd r1)
          else if landed (fst r2) then (Inr (), snd r2)
          else if landed (fst r3) then (Inr (), snd r3)
          else if landed (fst r4) then (Inr (), snd r4)
          else (Inl (carried_error [fst r1, fst r2, fst r3, fst r4]), snd r4))"
    if h: "same_verdict (fst r1) \<and>
       (landed (fst r1) \<or> same_verdict (fst r2) \<and>
       (landed (fst r2) \<or> same_verdict (fst r3) \<and>
       (landed (fst r3) \<or> same_verdict (fst r4))))"
  proof (cases "landed (fst r1)")
    case True
    then show ?thesis using h s1 st unfolding fn nav_loop_four Let_def by simp
  next
    case n1: False
    show ?thesis
    proof (cases "landed (fst r2)")
      case True
      then show ?thesis using h n1 s1 s2 st unfolding fn nav_loop_four Let_def by simp
    next
      case n2: False
      show ?thesis
      proof (cases "landed (fst r3)")
        case True
        then show ?thesis using h n1 n2 s1 s2 s3 st unfolding fn nav_loop_four Let_def by simp
      next
        case n3: False
        then show ?thesis using h n1 n2 s1 s2 s3 s4 st ce
          unfolding fn nav_loop_four Let_def by simp
      qed
    qed
  qed
  have lab: "map fst (targets d url) = [''direct'', ''js'', ''new_tab'', ''cdp'']"
    by (simp add: targets_def)
  have c1: "carried_error [Inl e1, Inr None, Inl e3, Inr None] = e3"
    by (simp add: carried_error_def encountered_def)
  have c2: "carried_error [Inr None, Inr None, Inr None, Inr (None :: string option)] =
     RuntimeError ''Failed to navigate to site''"
    by (simp add: carried_error_def encountered_def)
  show ?thesis
    using main lab c1 c2
    unfolding Let_def r1_def r2_def r3_def r4_def a1_def a2_def a3_def a4_def
    by blast
qed

text \<open>
  A session in which the direct load raises and the script-based redirect reaches the
  site: \<open>force_nav\<close> returns after the second strategy.
\<close>

theorem force_nav_first_success_witness:
  "landing script_driver (get script_driver ''https://MP3Juice.co/'') ''about:start'' =
     (Inl (OtherException ''net::ERR_BLOCKED''), ''about:start'') \<and>
   landing script_driver (both (get script_driver ''about:blank'')
      (execute_script script_driver ''location.href = arguments[0];'' ''https://MP3Juice.co/'')) ''about:start'' =
     (Inr (Some ''https://MP3Juice.co/''), ''https://MP3Juice.co/'') \<and>
   on_domain (Some ''https://MP3Juice.co/'') \<and> on_site (Some ''https://MP3Juice.co/'') \<and>
   force_nav script_driver ''https://MP3Juice.co/'' ''about:start'' = (Inr (), ''https://MP3Juice.co/'')"
proof -
  have a: "landing script_driver (get script_driver ''https://MP3Juice.co/'') ''about:start'' =
     (Inl (OtherException ''net::ERR_BLOCKED''), ''about:start'')"
    by code_simp
  have b: "landing script_driver (both (get script_driver ''about:blank'')
      (execute_script script_driver ''location.href = arguments[0];'' ''https://MP3Juice.co/'')) ''about:start'' =
     (Inr (Some ''https://MP3Juice.co/''), ''https://MP3Juice.co/'')"
    by code_simp
  have c: "on_domain (Some ''https://MP3Juice.co/'')" "on_site (Some ''https://MP3Juice.co/'')"
    by code_simp+
  have "force_nav script_driver ''https://MP3Juice.co/'' ''about:start'' = (Inr (), ''https://MP3Juice.co/'')"
    using force_nav_first_success [of script_driver "''https://MP3Juice.co/''" "''about:start''", THEN conjunct1]
      a b c
    by (simp add: Let_def same_verdict_def landed_def)
  then show ?thesis using a b c by simp
qed

subsection \<open>The download watcher\<close>

lemma latest_temp_filter: "latest_temp d ts acc = latest_temp (partial_since d ts) ts acc"
  by (induction d arbitrary: acc) (auto simp: partial_since_def split: option.splits)

lemma latest_temp_keep:
  assumes "\<forall>q\<in>set xs. st_mtime q \<le> m"
  shows "latest_temp xs ts (Some (c, m)) = Some (c, m)"
  using assms by (induction xs) auto

lemma latest_temp_pick:
  assumes "\<forall>q\<in>set (xs @ [p]). is_temp (file_name q) \<and> \<not> gone q \<and> ts \<le> st_mtime q"
    and "\<forall>q\<in>set xs. st_mtime q < st_mtime p"
    and "\<forall>c0 m0. acc = Some (c0, m0) \<longrightarrow> m0 < st_mtime p"
  shows "latest_temp (xs @ p # ys) ts acc = latest_temp ys ts (Some (file_name p, st_mtime p))"
  using assms
proof (induction xs arbitrary: acc)
  case Nil
  then show ?case by (cases acc) auto
next
  case (Cons x xs)
  have q: "is_temp (file_name x) \<and> \<not> gone x \<and> ts \<le> st_mtime x"
    using Cons.prems(1) by simp
  have rest: "\<forall>q\<in>set (xs @ [p]). is_temp (file_name q) \<and> \<not> gone q \<and> ts \<le> st_mtime q"
    using Cons.prems(1) by simp
  have lt: "\<forall>q\<in>set xs. st_mtime q < st_mtime p" "st_mtime x < st_mtime p"
    using Cons.prems(2) by auto
  define acc' where "acc' = (case acc of
      None \<Rightarrow> Some (file_name x, st_mtime x)
    | Some (c0, m0) \<Rightarrow> if m0 < st_mtime x then Some (file_name x, st_mtime x) else Some (c0, m0))"
  have step: "latest_temp ((x # xs) @ p # ys) ts acc = latest_temp (xs @ p # ys) ts acc'"
    using q by (cases acc) (auto simp: acc'_def)
  have acc': "\<forall>c0 m0. acc' = Some (c0, m0) \<longrightarrow> m0 < st_mtime p"
    using lt(2) Cons.prems(3) by (cases acc) (auto simp: acc'_def split: if_splits)
  show ?case unfolding step by (rule Cons.IH [OF rest lt(1) acc'])
qed

lemma latest_temp_first_latest:
  assumes "partial_since d ts = xs @ p # ys"
    and "\<forall>q\<in>set xs. st_mtime q < st_mtime p"
    and "\<forall>q\<in>set ys. st_mtime q \<le> st_mtime p"
  shows "latest_temp d ts None = Some (file_name p, st_mtime p)"
proof -
  have "set (xs @ [p]) \<subseteq> set (partial_since d ts)"
    using assms(1) by auto
  then have all: "\<forall>q\<in>set (xs @ [p]). is_temp (file_name q) \<and> \<not> gone q \<and> ts \<le> st_mtime q"
    unfolding partial_since_def by auto
  have "latest_temp d ts None = latest_temp (xs @ p # ys) ts None"
    using latest_temp_filter [of d ts None] assms(1) by simp
  also have "\<dots> = latest_temp ys ts (Some (file_name p, st_mtime p))"
    by (rule latest_temp_pick [OF all assms(2)]) simp
  also have "\<dots> = Some (file_name p, st_mtime p)"
    by (rule latest_temp_keep [OF assms(3)])
  finally show ?thesis .
qed

lemma latest_temp_none: "partial_since d ts = [] \<Longrightarrow> latest_temp d ts None = None"
  using latest_temp_filter [of d ts None] by simp

lemma phase1_found:
  assumes "start + 2 * k < deadline"
    and "\<forall>j<k. latest_temp (D (start + 2 * j)) ts None = None"
    and "latest_temp (D (start + 2 * k)) ts None = Some (c, m)"
  shows "phase1 D ts deadline start = (Some c, start + 2 * k)"
  using assms
proof (induction k arbitrary: start)
  case 0
  then show ?case by (subst phase1.simps) simp
next
  case (Suc k)
  have none: "latest_temp (D start) ts None = None"
    using Suc.prems(2) [rule_format, of 0] by simp
  have "phase1 D ts deadline (start + 2) = (Some c, (start + 2) + 2 * k)"
  proof (rule Suc.IH)
    show "start + 2 + 2 * k < deadline" using Suc.prems(1) by simp
    show "\<forall>j<k. latest_temp (D (start + 2 + 2 * j)) ts None = None"
      using Suc.prems(2) [rule_format, of "Suc j" for j] by (simp add: add.assoc)
    show "latest_temp (D (start + 2 + 2 * k)) ts None = Some (c, m)"
      using Suc.prems(3) by (simp add: add.assoc)
  qed
  then show ?case using none Suc.prems(1) by (subst phase1.simps) simp
qed

lemma phase2_found:
  assumes "t1 + 3 * n < deadline"
    and "\<forall>j<n. exists_in (D (t1 + 3 * j)) c"
    and "\<not> exists_in (D (t1 + 3 * n)) c"
    and "is_regular (D (t1 + 3 * n)) (target_stem c)"
  shows "phase2 D ts deadline c t1 = Some (target_stem c)"
  using assms
proof (induction n arbitrary: t1)
  case 0
  then show ?case by (subst phase2.simps) simp
next
  case (Suc n)
  have ex: "exists_in (D t1) c"
    using Suc.prems(2) [rule_format, of 0] by simp
  have "phase2 D ts deadline c (t1 + 3) = Some (target_stem c)"
  proof (rule Suc.IH)
    show "t1 + 3 + 3 * n < deadline" using Suc.prems(1) by simp
    show "\<forall>j<n. exists_in (D (t1 + 3 + 3 * j)) c"
      using Suc.prems(2) [rule_format, of "Suc j" for j] by (simp add: add.assoc)
    show "\<not> exists_in (D (t1 + 3 + 3 * n)) c" using Suc.prems(3) by (simp add: add.assoc)
    show "is_regular (D (t1 + 3 + 3 * n)) (target_stem c)" using Suc.prems(4) by (simp add: add.assoc)
  qed
  then show ?case using ex Suc.prems(1) by (subst phase2.simps) simp
qed

lemma phase1_no_partial:
  "\<forall>j. now + 2 * j < deadline \<longrightarrow> partial_since (D (now + 2 * j)) ts = [] \<Longrightarrow>
   phase1 D ts deadline now = (None, now + 2 * ((deadline - now + 1) div 2))"
proof (induction D ts deadline now rule: phase1.induct)
  case (1 D ts deadline now)
  show ?case
  proof (cases "now < deadline")
    case True
    have none: "latest_temp (D now) ts None = None"
      using "1.prems" [rule_format, of 0] True by (simp add: latest_temp_none)
    have later: "\<forall>j. now + 2 + 2 * j < deadline \<longrightarrow> partial_since (D (now + 2 + 2 * j)) ts = []"
      using "1.prems" [rule_format, of "Suc j" for j] by (simp add: add.assoc)
    have "phase1 D ts deadline (now + 2) = (None, now + 2 + 2 * ((deadline - (now + 2) + 1) div 2))"
      using "1.IH" [OF True none later] .
    moreover have "now + 2 + 2 * ((deadline - (now + 2) + 1) div 2) = now + 2 * ((deadline - now + 1) div 2)"
      using True by presburger
    ultimately show ?thesis using True none by (subst phase1.simps) simp
  next
    case False
    then show ?thesis by (subst phase1.simps) simp
  qed
qed

lemma phase2_stays:
  "\<forall>j. now + 3 * j < deadline \<longrightarrow> exists_in (D (now + 3 * j)) c \<Longrightarrow>
   phase2 D ts deadline c now = None"
proof (induction D ts deadline c now rule: phase2.induct)
  case (1 D ts deadline c now)
  show ?case
  proof (cases "now < deadline")
    case True
    have ex: "exists_in (D now) c"
      using "1.prems" [rule_format, of 0] True by simp
    have later: "\<forall>j. now + 3 + 3 * j < deadline \<longrightarrow> exists_in (D (now + 3 + 3 * j)) c"
      using "1.prems" [rule_format, of "Suc j" for j] by (simp add: add.assoc)
    have "phase2 D ts deadline c (now + 3) = None"
      using "1.IH"(2) [OF True _ later] ex by simp
    then show ?thesis using True ex by (subst phase2.simps) simp
  next
    case False
    then show ?thesis by (subst phase2.simps) simp
  qed
qed

text \<open>
  Claim C4 as stated fails. In the claim's own example the partial file \<open>x.part\<close> is
  not one for the watcher, which follows names ending in \<open>.crdownload\<close> only: phase 1
  identifies nothing and runs to the deadline at 10.0, and \<open>x.mp3\<close> is found by the
  scan made after it. And a partial file \<open>x.mp3.crdownload\<close> that is replaced by
  \<open>x.mp3\<close> at 9.8, before the timeout of 10, gives not-found: the last poll of
  phase 2 is at 9.7.
\<close>

theorem partial_file_not_followed:
  "phase1 part_dir 0 (0 + 100) 0 = (None, 100) \<and>
   wait_for_download part_dir 0 100 0 = Some ''x.mp3'' \<and>
   phase1 late_dir 0 (0 + 100) 0 = (Some ''x.mp3.crdownload'', 10) \<and>
   is_regular (late_dir 98) ''x.mp3'' \<and>
   wait_for_download late_dir 0 100 0 = None"
  by code_simp

text \<open>
  Claim C4, amended. A partial file is an entry whose name ends in \<open>.crdownload\<close>.
  Phase 1 polls every 0.2 from the call, strictly before the deadline. At the first poll
  that lists an existing partial file modified at or after \<open>after_timestamp\<close>, the one
  modified last (the first listed of several modified last) is the candidate. Phase 2
  polls every 0.3 from that instant, strictly before the deadline; if at the first of
  its polls at which the candidate no longer exists the name without \<open>.crdownload\<close> is
  a regular file, that file is returned. If the candidate still exists at every poll of
  phase 2, the result is not-found. If no poll of phase 1 lists such a partial file,
  phase 1 runs to the deadline and the result is that of one scan, made then, for a new
  file that is neither hidden nor named \<open>.crdownload\<close>: the first such regular file
  modified at or after \<open>after_timestamp\<close>, and not-found when there is none.
\<close>

theorem wait_for_download_two_phase:
  "(2 * k < timeout \<and>
    (\<forall>j<k. partial_since (D (start + 2 * j)) ts = []) \<and>
    partial_since (D (start + 2 * k)) ts = xs @ p # ys \<and>
    (\<forall>q\<in>set xs. st_mtime q < st_mtime p) \<and>
    (\<forall>q\<in>set ys. st_mtime q \<le> st_mtime p) \<and>
    2 * k + 3 * n < timeout \<and>
    (\<forall>j<n. exists_in (D (start + 2 * k + 3 * j)) (file_name p)) \<and>
    \<not> exists_in (D (start + 2 * k + 3 * n)) (file_name p) \<and>
    is_regular (D (start + 2 * k + 3 * n)) (target_stem (file_name p))
    \<longrightarrow> phase1 D ts (start + timeout) start = (Some (file_name p), start + 2 * k) \<and>
        is_temp (file_name p) \<and> ts \<le> st_mtime p \<and>
        wait_for_download D ts timeout start = Some (target_stem (file_name p))) \<and>
   (2 * k < timeout \<and>
    (\<forall>j<k. partial_since (D (start + 2 * j)) ts = []) \<and>
    partial_since (D (start + 2 * k)) ts = xs @ p # ys \<and>
    (\<forall>q\<in>set xs. st_mtime q < st_mtime p) \<and>
    (\<forall>q\<in>set ys. st_mtime q \<le> st_mtime p) \<and>
    (\<forall>j. 2 * k + 3 * j < timeout \<longrightarrow> exists_in (D (start + 2 * k + 3 * j)) (file_name p))
    \<longrightarrow> phase1 D ts (start + timeout) start = (Some (file_name p), start + 2 * k) \<and>
        wait_for_download D ts timeout start = None) \<and>
   ((\<forall>j. 2 * j < timeout \<longrightarrow> partial_since (D (start + 2 * j)) ts = [])
    \<longrightarrow> phase1 D ts (start + timeout) start = (None, start + 2 * ((timeout + 1) div 2)) \<and>
        wait_for_download D ts timeout start =
          new_file_scan (D (start + 2 * ((timeout + 1) div 2))) ts)"
proof -
  have found: "phase1 D ts (start + timeout) start = (Some (file_name p), start + 2 * k)"
    if "2 * k < timeout" "\<forall>j<k. partial_since (D (start + 2 * j)) ts = []"
      "partial_since (D (start + 2 * k)) ts = xs @ p # ys"
      "\<forall>q\<in>set xs. st_mtime q < st_mtime p" "\<forall>q\<in>set ys. st_mtime q \<le> st_mtime p"
  proof (rule phase1_found)
    show "start + 2 * k < start + timeout" using that(1) by simp
    show "\<forall>j<k. latest_temp (D (start + 2 * j)) ts None = None"
      using that(2) by (simp add: latest_temp_none)
    show "latest_temp (D (start + 2 * k)) ts None = Some (file_name p, st_mtime p)"
      using that(3,4,5) by (rule latest_temp_first_latest)
  qed
  have member: "is_temp (file_name p) \<and> ts \<le> st_mtime p"
    if "partial_since (D (start + 2 * k)) ts = xs @ p # ys"
  proof -
    have "p \<in> set (partial_since (D (start + 2 * k)) ts)" using that by simp
    then show ?thesis by (simp add: partial_since_def)
  qed
  show ?thesis
  proof (intro conjI impI)
    assume a: "2 * k < timeout \<and>
      (\<forall>j<k. partial_since (D (start + 2 * j)) ts = []) \<and>
      partial_since (D (start + 2 * k)) ts = xs @ p # ys \<and>
      (\<forall>q\<in>set xs. st_mtime q < st_mtime p) \<and>
      (\<forall>q\<in>set ys. st_mtime q \<le> st_mtime p) \<and>
      2 * k + 3 * n < timeout \<and>
      (\<forall>j<n. exists_in (D (start + 2 * k + 3 * j)) (file_name p)) \<and>
      \<not> exists_in (D (start + 2 * k + 3 * n)) (file_name p) \<and>
      is_regular (D (start + 2 * k + 3 * n)) (target_stem (file_name p))"
    then have p1: "phase1 D ts (start + timeout) start = (Some (file_name p), start + 2 * k)"
      by (intro found) auto
    from a have p2: "phase2 D ts (start + timeout) (file_name p) (start + 2 * k)
        = Some (target_stem (file_name p))"
      by (intro phase2_found) auto
    show "phase1 D ts (start + timeout) start = (Some (file_name p), start + 2 * k)" by (rule p1)
    show "is_temp (file_name p)" using a member by blast
    show "ts \<le> st_mtime p" using a member by blast
    show "wait_for_download D ts timeout start = Some (target_stem (file_name p))"
      using p1 p2 by (simp add: wait_for_download_def)
  next
    assume a: "2 * k < timeout \<and>
      (\<forall>j<k. partial_since (D (start + 2 * j)) ts = []) \<and>
      partial_since (D (start + 2 * k)) ts = xs @ p # ys \<and>
      (\<forall>q\<in>set xs. st_mtime q < st_mtime p) \<and>
      (\<forall>q\<in>set ys. st_mtime q \<le> st_mtime p) \<and>
      (\<forall>j. 2 * k + 3 * j < timeout \<longrightarrow> exists_in (D (start + 2 * k + 3 * j)) (file_name p))"
    then have p1: "phase1 D ts (start + timeout) start = (Some (file_name p), start + 2 * k)"
      by (intro found) auto
    from a have "phase2 D ts (start + timeout) (file_name p) (start + 2 * k) = None"
      by (intro phase2_stays) (auto simp: add.assoc)
    then have w: "wait_for_download D ts timeout start = None"
      using p1 by (simp add: wait_for_download_def)
    show "phase1 D ts (start + timeout) start = (Some (file_name p), start + 2 * k)" by (rule p1)
    show "wait_for_download D ts timeout start = None" by (rule w)
  next
    assume a: "\<forall>j. 2 * j < timeout \<longrightarrow> partial_since (D (start + 2 * j)) ts = []"
    have p1: "phase1 D ts (start + timeout) start
        = (None, start + 2 * ((start + timeout - start + 1) div 2))"
      using a by (intro phase1_no_partial) auto
    then show "phase1 D ts (start + timeout) start = (None, start + 2 * ((timeout + 1) div 2))"
      by simp
    then show "wait_for_download D ts timeout start =
          new_file_scan (D (start + 2 * ((timeout + 1) div 2))) ts"
      by (simp add: wait_for_download_def)
  qed
qed

text \<open>
  A directory with a partial file older than the click and two newer ones: phase 1
  finds them at 1.0 and follows the one modified last, phase 2 misses it first at 5.2
  and returns \<open>x.mp3\<close>. The partial file replaced at 9.8 exists at every poll of
  phase 2 and gives not-found. With \<open>x.part\<close> no poll of phase 1 lists a partial file,
  and the scan at the deadline returns \<open>x.mp3\<close>.
\<close>

theorem wait_for_download_two_phase_witness:
  "partial_since (busy_dir 10) 5 = [file_at ''a.mp3.crdownload'' 9, file_at ''x.mp3.crdownload'' 10] \<and>
   phase1 busy_dir 5 (6 + 100) 6 = (Some ''x.mp3.crdownload'', 10) \<and>
   wait_for_download busy_dir 5 100 6 = Some ''x.mp3'' \<and>
   phase1 late_dir 0 (0 + 100) 0 = (Some ''x.mp3.crdownload'', 10) \<and>
   wait_for_download late_dir 0 100 0 = None \<and>
   phase1 part_dir 0 (0 + 100) 0 = (None, 100) \<and>
   wait_for_download part_dir 0 100 0 = Some ''x.mp3''"
proof -
  let ?c = "''x.mp3.crdownload''"
  let ?p = "file_at ?c 10"
  have nm: "file_name ?p = ?c" "st_mtime ?p = 10" by (simp_all add: file_at_def)
  have ts: "target_stem ?c = ''x.mp3''" by code_simp
  have a1: "\<forall>j<2. partial_since (busy_dir (6 + 2 * j)) 5 = []"
  proof (intro allI impI)
    fix j :: nat assume "j < 2"
    then have "j = 0 \<or> j = 1" by auto
    then show "partial_since (busy_dir (6 + 2 * j)) 5 = []"
      by (auto simp: busy_dir_def partial_since_def file_at_def)
  qed
  have a2: "partial_since (busy_dir (6 + 2 * 2)) 5 = [file_at ''a.mp3.crdownload'' 9] @ ?p # []"
    by code_simp
  have a3: "\<forall>q\<in>set [file_at ''a.mp3.crdownload'' 9]. st_mtime q < st_mtime ?p"
    by (simp add: file_at_def)
  have a4: "\<forall>j<14. exists_in (busy_dir (6 + 2 * 2 + 3 * j)) (file_name ?p)"
    by (auto simp: busy_dir_def exists_in_def file_at_def)
  have a5: "\<not> exists_in (busy_dir (6 + 2 * 2 + 3 * 14)) (file_name ?p)"
    unfolding nm by code_simp
  have a6: "is_regular (busy_dir (6 + 2 * 2 + 3 * 14)) (target_stem (file_name ?p))"
    unfolding nm by code_simp
  have A: "phase1 busy_dir 5 (6 + 100) 6 = (Some ?c, 10) \<and>
           wait_for_download busy_dir 5 100 6 = Some ''x.mp3''"
    using wait_for_download_two_phase
      [where k = 2 and timeout = 100 and D = busy_dir and start = 6 and ts = 5
         and xs = "[file_at ''a.mp3.crdownload'' 9]" and p = ?p and ys = "[]" and n = 14,
       THEN conjunct1] a1 a2 a3 a4 a5 a6 nm ts
    by simp
  have b1: "\<forall>j<5. partial_since (late_dir (0 + 2 * j)) 0 = []"
    by (auto simp: late_dir_def partial_since_def)
  have b2: "partial_since (late_dir (0 + 2 * 5)) 0 = [] @ ?p # []"
    by code_simp
  have b3: "\<forall>j. 2 * 5 + 3 * j < (100::nat) \<longrightarrow> exists_in (late_dir (0 + 2 * 5 + 3 * j)) (file_name ?p)"
    by (auto simp: late_dir_def exists_in_def file_at_def)
  have B: "phase1 late_dir 0 (0 + 100) 0 = (Some ?c, 10) \<and> wait_for_download late_dir 0 100 0 = None"
    using wait_for_download_two_phase
      [where k = 5 and timeout = 100 and D = late_dir and start = 0 and ts = 0
         and xs = "[]" and p = ?p and ys = "[]",
       THEN conjunct2, THEN conjunct1] b1 b2 b3 nm
    by simp
  have c1: "\<forall>j. 2 * j < (100::nat) \<longrightarrow> partial_since (part_dir (0 + 2 * j)) 0 = []"
    by (auto simp: part_dir_def partial_since_def file_at_def is_temp_def suffix_def)
  have c2: "new_file_scan (part_dir 100) 0 = Some ''x.mp3''" by code_simp
  have C: "phase1 part_dir 0 (0 + 100) 0 = (None, 100) \<and> wait_for_download part_dir 0 100 0 = Some ''x.mp3''"
    using wait_for_download_two_phase
      [where timeout = 100 and D = part_dir and start = 0 and ts = 0,
       THEN conjunct2, THEN conjunct2] c1 c2
    by simp
  have d: "partial_since (busy_dir 10) 5 = [file_at ''a.mp3.crdownload'' 9, file_at ''x.mp3.crdownload'' 10]"
    by code_simp
  show ?thesis using A B C d by simp
qed

subsection \<open>The worker loop and the run: every round ends, and what it prints\<close>

lemma resolve_collision_total: "\<exists>r. resolve_collision dir name = Some r"
  using next_free_total [of 1 dir "stem_of name" "suffix_of name"]
  by (auto simp: resolve_collision_def)

lemma place_download_total: "\<exists>name fs'. place_download env wid i got fs = Some (name, fs')"
  using resolve_collision_total [of "shared_names fs" got]
  by (auto simp: place_download_def choose_target_def split: option.splits)

lemma outcomes_simps [simp]:
  "outcomes [] = 0"
  "outcomes (Query i q # ls) = outcomes ls"
  "outcomes (NoResults i # ls) = Suc (outcomes ls)"
  "outcomes (NoCompletedFile i # ls) = Suc (outcomes ls)"
  "outcomes (Downloaded i n # ls) = Suc (outcomes ls)"
  "outcomes (ls @ ls') = outcomes ls + outcomes ls'"
  by (simp_all add: outcomes_def)

lemma handle_query_shape:
  "case handle_query env wid t fs of
     None \<Rightarrow> False
   | Some (ls, None, fs') \<Rightarrow> outcomes ls = 1
   | Some (ls, Some e, fs') \<Rightarrow> outcomes ls = 0 \<and> fs' = fs"
proof -
  obtain i q where t: "t = (i, q)" by (cases t)
  have pd: "place_download env wid i got fs0 \<noteq> None" for got fs0
    using place_download_total [of env wid i got fs0] by auto
  show ?thesis
    by (simp add: pd handle_query_def t split: option.splits sum.splits bool.splits prod.splits)
qed

lemma handle_query_cases:
  "\<exists>ls r fs'. handle_query env wid t fs = Some (ls, r, fs') \<and>
     (case r of None \<Rightarrow> outcomes ls = 1 | Some e \<Rightarrow> outcomes ls = 0 \<and> fs' = fs)"
  using handle_query_shape [where env = env and wid = wid and t = t and fs = fs]
  by (auto split: option.splits)

lemma run_tasks_count:
  "\<exists>ls r fs'. run_tasks env wid ts fs = Some (ls, r, fs') \<and> outcomes ls \<le> length ts \<and>
     (r = None \<longrightarrow> outcomes ls = length ts)"
proof (induction ts arbitrary: fs)
  case Nil
  then show ?case by simp
next
  case (Cons t ts)
  from handle_query_cases [of env wid t fs] obtain ls r fs1 where
    h: "handle_query env wid t fs = Some (ls, r, fs1)"
       "case r of None \<Rightarrow> outcomes ls = 1 | Some e \<Rightarrow> outcomes ls = 0 \<and> fs1 = fs" by blast
  from Cons.IH [of fs1] obtain ls' r' fs2 where
    t: "run_tasks env wid ts fs1 = Some (ls', r', fs2)" "outcomes ls' \<le> length ts"
       "r' = None \<longrightarrow> outcomes ls' = length ts" by blast
  show ?case
  proof (cases r)
    case None
    then show ?thesis using h t by simp
  next
    case (Some e)
    then show ?thesis using h by simp
  qed
qed

lemma process_worker_count:
  "\<exists>res fs'. process_worker env wid ts fs = Some (res, fs') \<and>
     outcomes (printed res) \<le> length ts \<and>
     (raised res = None \<longrightarrow> outcomes (printed res) = length ts)"
proof -
  from run_tasks_count [of env wid ts fs] obtain ls r fs' where
    t: "run_tasks env wid ts fs = Some (ls, r, fs')" "outcomes ls \<le> length ts"
       "r = None \<longrightarrow> outcomes ls = length ts" by blast
  show ?thesis
  proof (cases "outcome (build_driver (host_of env wid) (profiles_at env wid))")
    case (Inl e)
    then show ?thesis by (simp add: process_worker_def)
  next
    case (Inr d)
    show ?thesis
    proof (cases "ts \<noteq> [] \<and> nav_home env wid \<noteq> None")
      case True
      then show ?thesis using Inr
        by (auto simp: process_worker_def split: option.splits)
    next
      case False
      then have "(if ts \<noteq> [] then (case nav_home env wid of Some e \<Rightarrow> Some ([], Some e, fs)
                   | None \<Rightarrow> run_tasks env wid ts fs) else run_tasks env wid ts fs) = Some (ls, r, fs')"
        using t(1) by auto
      then show ?thesis using Inr t(2,3)
        by (auto simp: process_worker_def split: option.splits)
    qed
  qed
qed

lemma run_workers_total:
  "\<exists>rs fs'. run_workers env ws fs = Some (rs, fs') \<and> list_all2 (ran env) ws rs"
proof (induction ws arbitrary: fs)
  case Nil
  then show ?case by simp
next
  case (Cons w ws)
  obtain wid tasks where w: "w = (wid, tasks)" by (cases w)
  from process_worker_count [of env wid tasks fs] obtain r fs1 where
    p: "process_worker env wid tasks fs = Some (r, fs1)" by blast
  from Cons.IH [of fs1] obtain rs fs2 where
    t: "run_workers env ws fs1 = Some (rs, fs2)" "list_all2 (ran env) ws rs" by blast
  have "ran env w r" using p by (auto simp: ran_def w)
  then show ?case using p t by (simp add: w)
qed

lemma ran_count:
  assumes "ran env w r"
  shows "outcomes (printed r) \<le> length (snd w)"
    and "raised r = None \<Longrightarrow> outcomes (printed r) = length (snd w)"
proof -
  from assms obtain fs fs' where p: "process_worker env (fst w) (snd w) fs = Some (r, fs')"
    by (auto simp: ran_def)
  from process_worker_count [of env "fst w" "snd w" fs] p
  show "outcomes (printed r) \<le> length (snd w)"
    and "raised r = None \<Longrightarrow> outcomes (printed r) = length (snd w)"
    by auto
qed

lemma ran_sum_le:
  "list_all2 (ran env) ws rs \<Longrightarrow>
   sum_list (map (\<lambda>r. outcomes (printed r)) rs) \<le> sum_list (map (\<lambda>w. length (snd w)) ws)"
proof (induction rule: list_all2_induct)
  case Nil
  then show ?case by simp
next
  case (Cons w ws r rs)
  then show ?case using ran_count(1) [of env w r] by simp
qed

lemma ran_sum_eq:
  "list_all2 (ran env) ws rs \<Longrightarrow> \<forall>r\<in>set rs. raised r = None \<Longrightarrow>
   sum_list (map (\<lambda>r. outcomes (printed r)) rs) = sum_list (map (\<lambda>w. length (snd w)) ws)"
proof (induction rule: list_all2_induct)
  case Nil
  then show ?case by simp
next
  case (Cons w ws r rs)
  then show ?case using ran_count(2) [of env w r] by simp
qed

lemma outcome_kinds:
  "downloaded os + failed os + skipped os = length (filter is_outcome os)"
proof (induction os)
  case Nil
  then show ?case by (simp add: downloaded_def failed_def skipped_def)
next
  case (Cons x os)
  have "is_outcome x \<longleftrightarrow> is_downloaded x \<or> is_failed x \<or> is_skipped x"
    "\<not> (is_downloaded x \<and> is_failed x)" "\<not> (is_downloaded x \<and> is_skipped x)"
    "\<not> (is_failed x \<and> is_skipped x)"
    by (cases x rule: is_outcome.cases; simp)+
  then show ?case using Cons by (auto simp: downloaded_def failed_def skipped_def)
qed

lemma outcomes_concat: "outcomes (concat lss) = sum_list (map outcomes lss)"
  by (induction lss) simp_all

lemma worker_errors_no_outcome: "filter is_outcome (worker_errors rs) = []"
  by (induction rs) (auto simp: worker_errors_def split: option.splits)

lemma worker_errors_Cons:
  "worker_errors (r # rs) =
     (case raised r of Some e \<Rightarrow> [WorkerError e] | None \<Rightarrow> []) @ worker_errors rs"
  by (simp add: worker_errors_def)

lemma worker_errors_empty:
  "(\<forall>e. WorkerError e \<notin> set (worker_errors rs)) \<longleftrightarrow> (\<forall>r\<in>set rs. raised r = None)"
proof (induction rs)
  case Nil
  then show ?case by (simp add: worker_errors_def)
next
  case (Cons r rs)
  show ?case
  proof (cases "raised r")
    case None
    then show ?thesis using Cons by (simp add: worker_errors_Cons)
  next
    case (Some e)
    then show ?thesis by (auto simp: worker_errors_Cons)
  qed
qed

lemma worker_errors_mem: "r \<in> set rs \<Longrightarrow> raised r = Some e \<Longrightarrow> WorkerError e \<in> set (worker_errors rs)"
  by (induction rs) (auto simp: worker_errors_Cons)

text \<open>The shape of a run over a non-empty list of queries.\<close>

lemma run_shape:
  assumes "0 < N" "queries \<noteq> []"
  shows "\<exists>bs rs fs'. buckets N queries = Inr bs \<and> length bs = N \<and>
           (\<forall>k<N. bs ! k = filter (\<lambda>(i, q). i mod N = k) (enumerate 0 queries)) \<and>
           mset (concat (map snd (spawned bs))) = mset (enumerate 0 queries) \<and>
           run_workers env (spawned bs) fs = Some (rs, fs') \<and>
           list_all2 (ran env) (spawned bs) rs \<and>
           run env N queries fs =
             Some ([Total (length queries) N] @ map Printed (concat (map printed rs))
                   @ worker_errors rs @ [Done], None, fs')"
proof -
  from buckets_cover [OF assms(1), of queries] obtain bs where
    bs: "buckets N queries = Inr bs" "length bs = N"
        "\<forall>k<N. bs ! k = filter (\<lambda>(i, q). i mod N = k) (enumerate 0 queries)"
        "concat (map snd (spawned bs)) = concat bs"
        "mset (concat bs) = mset (enumerate 0 queries)" by blast
  from run_workers_total [of env "spawned bs" fs] obtain rs fs' where
    rw: "run_workers env (spawned bs) fs = Some (rs, fs')" "list_all2 (ran env) (spawned bs) rs"
    by blast
  have "run env N queries fs =
             Some ([Total (length queries) N] @ map Printed (concat (map printed rs))
                   @ worker_errors rs @ [Done], None, fs')"
    using bs(1) rw(1) assms(2) by (simp add: run_def)
  then show ?thesis using bs rw by auto
qed

subsection \<open>Session creation\<close>

lemma launches_bound:
  "length (launches (build_loop h as ud le fs acc)) \<le> length acc + length as"
proof (induction as arbitrary: ud le fs acc)
  case Nil
  then show ?case by simp
next
  case (Cons a as)
  show ?case
    using Cons [of _ _ _ acc] Cons [of _ _ _ "acc @ [(x, y)]" for x y]
    by (auto simp: Let_def le_SucI split: sum.splits option.splits)
qed

lemma launches_fresh:
  assumes "\<forall>fs u. mkdtemp h fs = Inr u \<longrightarrow> u \<notin> set fs"
    and "\<forall>(u, before)\<in>set acc. u \<notin> set before"
  shows "\<forall>(u, before)\<in>set (launches (build_loop h as ud le fs acc)). u \<notin> set before"
  using assms(2)
proof (induction as arbitrary: ud le fs acc)
  case Nil
  then show ?case by simp
next
  case (Cons a as)
  define fs1 where "fs1 = (case ud of None \<Rightarrow> fs
      | Some u \<Rightarrow> if u \<in> set fs \<and> rmtree h u then removeAll u fs else fs)"
  show ?case
  proof (cases "mkdtemp h fs1")
    case (Inl e)
    then show ?thesis using Cons by (simp add: Let_def flip: fs1_def)
  next
    case (Inr u)
    then have "u \<notin> set fs1" using assms(1) by blast
    then have acc': "\<forall>(u, before)\<in>set (acc @ [(u, fs1)]). u \<notin> set before"
      using Cons.prems by auto
    show ?thesis
      using Inr acc' Cons.IH [OF acc']
      by (simp add: Let_def split: sum.splits flip: fs1_def)
  qed
qed

lemma all_launches_fail:
  assumes "\<forall>fs. \<exists>u. mkdtemp h fs = Inr u"
    and "\<forall>a u. chrome h a u = Inl (SessionNotCreatedException (msg a))"
  shows "outcome (build_loop h as ud le fs acc) =
           Inl (if as = [] then (case le of Some e \<Rightarrow> e
                  | None \<Rightarrow> RuntimeError ''Failed to create Chrome session after retries'')
                else SessionNotCreatedException (msg (last as))) \<and>
         length (launches (build_loop h as ud le fs acc)) = length acc + length as"
proof (induction as arbitrary: ud le fs acc)
  case Nil
  then show ?case by simp
next
  case (Cons a as)
  define fs1 where "fs1 = (case ud of None \<Rightarrow> fs
      | Some u \<Rightarrow> if u \<in> set fs \<and> rmtree h u then removeAll u fs else fs)"
  from assms(1) obtain u where u: "mkdtemp h fs1 = Inr u" by blast
  have step: "build_loop h (a # as) ud le fs acc =
      build_loop h as (Some u) (Some (SessionNotCreatedException (msg a))) (u # fs1) (acc @ [(u, fs1)])"
    using u assms(2) by (simp add: Let_def flip: fs1_def)
  show ?case unfolding step using Cons [of "Some u" _ "u # fs1" "acc @ [(u, fs1)]"]
    by simp
qed

subsection \<open>Exceptions in the worker loop\<close>

lemma run_tasks_append:
  assumes "run_tasks env wid ts1 fs = Some (ls1, None, fs1)"
  shows "run_tasks env wid (ts1 @ ts2) fs =
           (case run_tasks env wid ts2 fs1 of
              None \<Rightarrow> None
            | Some (ls, r, fs2) \<Rightarrow> Some (ls1 @ ls, r, fs2))"
  using assms
proof (induction ts1 arbitrary: ls1 fs)
  case Nil
  then show ?case by (simp split: option.splits)
next
  case (Cons t ts1)
  from Cons.prems obtain la lb fa where
    a: "handle_query env wid t fs = Some (la, None, fa)" and
    b: "run_tasks env wid ts1 fa = Some (lb, None, fs1)" and c: "ls1 = la @ lb"
    by (auto split: option.splits prod.splits)
  show ?case using a c Cons.IH [OF b]
    by (simp split: option.splits prod.splits)
qed

text \<open>
  Claim C1 as stated fails: on a site where the search for query 2 raises, the worker
  that holds queries 0, 2, 4 and 6 prints the download of query 0 and the start of
  query 2, records no outcome for query 2, never starts queries 4 and 6, and ends with
  the exception of the search, although query 4 handled alone ends in a download.
\<close>

theorem worker_stops_at_failing_query:
  "process_worker demo_site 0 [(0, ''q0''), (2, ''q2''), (4, ''q4''), (6, ''q6'')] start_files =
     Some (\<lparr>printed = [Query 0 ''q0'', Downloaded 0 ''Song (1).mp3'', Query 2 ''q2''],
            raised = Some (OtherException ''TimeoutException''), cleaned = True\<rparr>,
           [(Shared, ''Song (1).mp3''), (Shared, ''worker_1''), (Shared, ''worker_2''),
            (Shared, ''Song.mp3'')]) \<and>
   handle_query demo_site 0 (4, ''q4'') start_files =
     Some ([Query 4 ''q4'', Downloaded 4 ''Song (1).mp3''], None,
           [(Shared, ''Song (1).mp3''), (Shared, ''worker_1''), (Shared, ''worker_2''),
            (Shared, ''Song.mp3'')])"
  by code_simp

text \<open>
  Claim C1, amended. \<open>process_worker\<close> has no handler at the boundary of a query. For
  every worker whose session started and reached the site, if the queries before a
  query ran without raising and the handling of that query raises (in the search, the
  location of a result, the trigger of the download or the wait for completion), then
  nothing is recorded for that query beyond its start, the files stay as they were, none
  of the worker's remaining queries is run, \<open>cleanup_driver\<close> runs, and the exception
  (or that of \<open>d.quit()\<close>) leaves the worker. A round that does not raise is followed by
  the next query.
\<close>

theorem query_exception_ends_worker:
  assumes "outcome (build_driver (host_of env wid) (profiles_at env wid)) = Inr d"
    and "nav_home env wid = None"
    and "run_tasks env wid earlier fs = Some (ls1, None, fs1)"
    and "handle_query env wid t fs1 = Some (ls2, Some e, fs2)"
    and "handle_query env wid t' fs3 = Some (ls3, None, fs4)"
  shows "process_worker env wid (earlier @ t # rest) fs =
           Some (\<lparr>printed = ls1 @ ls2,
                  raised = Some (case quit env wid of Some e' \<Rightarrow> e' | None \<Rightarrow> e),
                  cleaned = True\<rparr>, fs1) \<and>
         outcomes ls2 = 0 \<and> fs2 = fs1 \<and>
         run_tasks env wid (t' # rest) fs3 =
           (case run_tasks env wid rest fs4 of
              None \<Rightarrow> None
            | Some (ls, r, fs5) \<Rightarrow> Some (ls3 @ ls, r, fs5))"
proof -
  have z: "outcomes ls2 = 0 \<and> fs2 = fs1"
    using handle_query_shape [where env = env and wid = wid and t = t and fs = fs1] assms(4)
    by simp
  have "run_tasks env wid (t # rest) fs1 = Some (ls2, Some e, fs1)"
    using assms(4) z by simp
  then have rt: "run_tasks env wid (earlier @ t # rest) fs = Some (ls1 @ ls2, Some e, fs1)"
    using run_tasks_append [OF assms(3), of "t # rest"] by simp
  have pw: "process_worker env wid (earlier @ t # rest) fs =
           Some (\<lparr>printed = ls1 @ ls2,
                  raised = Some (case quit env wid of Some e' \<Rightarrow> e' | None \<Rightarrow> e),
                  cleaned = True\<rparr>, fs1)"
    using assms(1,2) rt by (simp add: process_worker_def split: option.splits)
  have nx: "run_tasks env wid (t' # rest) fs3 =
           (case run_tasks env wid rest fs4 of
              None \<Rightarrow> None
            | Some (ls, r, fs5) \<Rightarrow> Some (ls3 @ ls, r, fs5))"
    using assms(5) by (simp split: option.splits prod.splits)
  show ?thesis using pw z nx by simp
qed

theorem query_exception_ends_worker_witness:
  "outcome (build_driver (host_of demo_site 0) (profiles_at demo_site 0)) = Inr (0, ''chromium_profile_'') \<and>
   nav_home demo_site 0 = None \<and>
   run_tasks demo_site 0 [(0, ''q0'')] start_files =
     Some ([Query 0 ''q0'', Downloaded 0 ''Song (1).mp3''], None,
           [(Shared, ''Song (1).mp3''), (Shared, ''worker_1''), (Shared, ''worker_2''),
            (Shared, ''Song.mp3'')]) \<and>
   handle_query demo_site 0 (2, ''q2'')
       [(Shared, ''Song (1).mp3''), (Shared, ''worker_1''), (Shared, ''worker_2''), (Shared, ''Song.mp3'')] =
     Some ([Query 2 ''q2''], Some (OtherException ''TimeoutException''),
           [(Shared, ''Song (1).mp3''), (Shared, ''worker_1''), (Shared, ''worker_2''),
            (Shared, ''Song.mp3'')]) \<and>
   handle_query demo_site 0 (3, ''q3'') [] = Some ([Query 3 ''q3'', NoResults 3], None, []) \<and>
   process_worker demo_site 0 ([(0, ''q0'')] @ (2, ''q2'') # [(4, ''q4'')]) start_files =
     Some (\<lparr>printed = [Query 0 ''q0'', Downloaded 0 ''Song (1).mp3''] @ [Query 2 ''q2''],
            raised = Some (OtherException ''TimeoutException''), cleaned = True\<rparr>,
           [(Shared, ''Song (1).mp3''), (Shared, ''worker_1''), (Shared, ''worker_2''),
            (Shared, ''Song.mp3'')])"
proof -
  let ?fs1 = "[(Shared, ''Song (1).mp3''), (Shared, ''worker_1''), (Shared, ''worker_2''), (Shared, ''Song.mp3'')]"
  have a: "outcome (build_driver (host_of demo_site 0) (profiles_at demo_site 0)) = Inr (0, ''chromium_profile_'')"
    by code_simp
  have b: "nav_home demo_site 0 = None" by code_simp
  have c: "run_tasks demo_site 0 [(0, ''q0'')] start_files =
     Some ([Query 0 ''q0'', Downloaded 0 ''Song (1).mp3''], None, ?fs1)" by code_simp
  have d: "handle_query demo_site 0 (2, ''q2'') ?fs1 =
     Some ([Query 2 ''q2''], Some (OtherException ''TimeoutException''), ?fs1)"
    by code_simp
  have e: "handle_query demo_site 0 (3, ''q3'') [] = Some ([Query 3 ''q3'', NoResults 3], None, [])"
    by code_simp
  have q: "quit demo_site 0 = None" by code_simp
  show ?thesis
    using query_exception_ends_worker [OF a b c d e, of "[(4, ''q4'')]"] a b c d e q by simp
qed




subsection \<open>The orchestrator\<close>

text \<open>
  Claim C3, amended. \<open>run\<close> keeps no counts; its summary is what is printed. For
  every run over \<open>L > 0\<close> queries at a concurrency \<open>N > 0\<close>, \<open>run\<close> ends without
  raising and the last line it prints is the final \<open>Done\<close> line, whatever the workers
  raised. The outcome lines printed (downloaded, no completed file, no results) are at
  most \<open>L\<close>, and exactly \<open>L\<close> when no worker error is reported.
\<close>

theorem run_outcome_lines:
  assumes "0 < N" "queries \<noteq> []"
  shows "\<exists>os fs'. run env N queries fs = Some (os, None, fs') \<and> last os = Done \<and>
           downloaded os + failed os + skipped os \<le> length queries \<and>
           ((\<forall>e. WorkerError e \<notin> set os) \<longrightarrow>
              downloaded os + failed os + skipped os = length queries)"
proof -
  from run_shape [OF assms, of env fs] obtain bs rs fs' where
    ms: "mset (concat (map snd (spawned bs))) = mset (enumerate 0 queries)"
    and la: "list_all2 (ran env) (spawned bs) rs"
    and r: "run env N queries fs =
             Some ([Total (length queries) N] @ map Printed (concat (map printed rs))
                   @ worker_errors rs @ [Done], None, fs')" by blast
  define os where "os = [Total (length queries) N] @ map Printed (concat (map printed rs))
                   @ worker_errors rs @ [Done]"
  have run: "run env N queries fs = Some (os, None, fs')"
    using r by (simp add: os_def)
  have len: "sum_list (map (\<lambda>x. length (snd x)) (spawned bs)) = length queries"
  proof -
    have "length (concat (map snd (spawned bs))) = length queries"
      using ms by (metis length_enumerate size_mset)
    then show ?thesis by (simp add: length_concat comp_def)
  qed
  have cnt: "downloaded os + failed os + skipped os
             = sum_list (map (\<lambda>r. outcomes (printed r)) rs)"
  proof -
    have "filter is_outcome os = filter is_outcome (map Printed (concat (map printed rs)))"
      by (simp add: os_def worker_errors_no_outcome)
    then have "length (filter is_outcome os) = outcomes (concat (map printed rs))"
      by (simp add: outcomes_def)
    also have "\<dots> = sum_list (map outcomes (map printed rs))"
      by (rule outcomes_concat)
    also have "\<dots> = sum_list (map (\<lambda>r. outcomes (printed r)) rs)"
      by (simp add: comp_def)
    finally show ?thesis by (simp add: outcome_kinds)
  qed
  have le: "downloaded os + failed os + skipped os \<le> length queries"
    unfolding cnt len [symmetric] using la by (rule ran_sum_le)
  have eq: "downloaded os + failed os + skipped os = length queries"
    if "\<forall>e. WorkerError e \<notin> set os"
  proof -
    have "\<forall>e. WorkerError e \<notin> set (worker_errors rs)" using that by (simp add: os_def)
    then have "\<forall>r\<in>set rs. raised r = None" by (simp add: worker_errors_empty)
    then have "sum_list (map (\<lambda>r. outcomes (printed r)) rs)
             = sum_list (map (\<lambda>w. length (snd w)) (spawned bs))"
      using la by (intro ran_sum_eq)
    then show ?thesis by (metis cnt len)
  qed
  have "last os = Done" by (simp add: os_def)
  then show ?thesis using run le eq by blast
qed

text \<open>
  Claim C3 as stated fails: seven queries at concurrency 2, on a site where the search
  for query 2 raises, end with four outcome lines. Worker 0 holds queries 0, 2, 4, 6
  and stops at query 2; no outcome is printed for queries 2, 4 and 6.
\<close>

theorem seven_queries_four_outcomes:
  "length seven = 7 \<and>
   run demo_site 2 seven start_files =
     Some ([Total 7 2,
            Printed (Query 0 ''q0''), Printed (Downloaded 0 ''Song (1).mp3''),
            Printed (Query 2 ''q2''),
            Printed (Query 1 ''q1''), Printed (Downloaded 1 ''Song.mp3''),
            Printed (Query 3 ''q3''), Printed (NoResults 3),
            Printed (Query 5 ''q5''), Printed (NoCompletedFile 5),
            WorkerError (OtherException ''TimeoutException''), Done], None,
           [(Worker 1, ''Song.mp3''), (Shared, ''Song (1).mp3''),
            (Shared, ''worker_1''), (Shared, ''worker_2''), (Shared, ''Song.mp3'')]) \<and>
   downloaded (fst (the (run demo_site 2 seven start_files))) = 2 \<and>
   failed (fst (the (run demo_site 2 seven start_files))) = 1 \<and>
   skipped (fst (the (run demo_site 2 seven start_files))) = 1"
  by code_simp

theorem run_outcome_lines_witness:
  "(0::nat) < 2 \<and> seven \<noteq> [] \<and>
   (\<exists>os fs'. run locked_site 2 seven start_files = Some (os, None, fs') \<and> last os = Done \<and>
      downloaded os + failed os + skipped os \<le> length seven) \<and>
   run locked_site 2 seven start_files =
     Some ([Total 7 2,
            Printed (Query 1 ''q1''), Printed (Downloaded 1 ''Song.mp3''),
            Printed (Query 3 ''q3''), Printed (NoResults 3),
            Printed (Query 5 ''q5''), Printed (NoCompletedFile 5),
            WorkerError (SessionNotCreatedException ''profile in use, attempt 2''), Done], None,
           [(Worker 1, ''Song.mp3''), (Shared, ''worker_1''), (Shared, ''worker_2''),
            (Shared, ''Song.mp3'')])"
proof -
  have a: "(0::nat) < 2" by simp
  have b: "seven \<noteq> []" by (simp add: seven_def)
  have c: "run locked_site 2 seven start_files =
     Some ([Total 7 2,
            Printed (Query 1 ''q1''), Printed (Downloaded 1 ''Song.mp3''),
            Printed (Query 3 ''q3''), Printed (NoResults 3),
            Printed (Query 5 ''q5''), Printed (NoCompletedFile 5),
            WorkerError (SessionNotCreatedException ''profile in use, attempt 2''), Done], None,
           [(Worker 1, ''Song.mp3''), (Shared, ''worker_1''), (Shared, ''worker_2''),
            (Shared, ''Song.mp3'')])"
    by code_simp
  from run_outcome_lines [OF a b, of locked_site start_files] obtain os fs' where
    "run locked_site 2 seven start_files = Some (os, None, fs')" "last os = Done"
    "downloaded os + failed os + skipped os \<le> length seven" by blast
  then show ?thesis using a b c by blast
qed

subsection \<open>A worker without a session\<close>

lemma length_le_concat: "x \<in> set fs \<Longrightarrow> length x \<le> length (concat fs)"
  by (induction fs) auto

lemma fresh_name_new: "fresh_name fs \<notin> set fs"
proof
  assume "fresh_name fs \<in> set fs"
  then have "length (fresh_name fs) \<le> length (concat fs)"
    by (rule length_le_concat)
  then show False by (simp add: fresh_name_def)
qed

lemma spawned_member:
  "v < length bs \<Longrightarrow> bs ! v \<noteq> [] \<Longrightarrow> (v, bs ! v) \<in> set (spawned bs)"
  by (simp add: spawned_def in_set_enumerate_eq)

lemma ran_member:
  assumes "list_all2 (ran env) ws rs" and "w \<in> set ws"
  shows "\<exists>r\<in>set rs. ran env w r"
proof -
  from assms(2) obtain i where i: "i < length ws" "ws ! i = w"
    by (auto simp: in_set_conv_nth)
  then have "ran env w (rs ! i)" "i < length rs"
    using assms(1) by (auto simp: list_all2_conv_all_nth)
  then show ?thesis by auto
qed

lemma workers_in_run:
  assumes "0 < N" "queries \<noteq> []"
  shows "\<exists>os bs rs fs'. run env N queries fs = Some (os, None, fs') \<and>
           buckets N queries = Inr bs \<and> length bs = N \<and>
           (\<forall>k<N. bs ! k = filter (\<lambda>(i, q). i mod N = k) (enumerate 0 queries)) \<and>
           run_workers env (spawned bs) fs = Some (rs, fs') \<and>
           os = [Total (length queries) N] @ map Printed (concat (map printed rs))
                  @ worker_errors rs @ [Done] \<and>
           last os = Done \<and>
           (\<forall>v<N. bs ! v \<noteq> [] \<longrightarrow>
              (v, bs ! v) \<in> set (spawned bs) \<and>
              (\<exists>r\<in>set rs. ran env (v, bs ! v) r \<and>
                  (\<forall>l\<in>set (printed r). Printed l \<in> set os) \<and>
                  (\<forall>e. raised r = Some e \<longrightarrow> WorkerError e \<in> set os) \<and>
                  (raised r = None \<longrightarrow> outcomes (printed r) = length (bs ! v))))"
proof -
  from run_shape [OF assms, of env fs] obtain bs rs fs' where
    bs: "buckets N queries = Inr bs" "length bs = N"
        "\<forall>k<N. bs ! k = filter (\<lambda>(i, q). i mod N = k) (enumerate 0 queries)"
    and rw: "run_workers env (spawned bs) fs = Some (rs, fs')"
    and la: "list_all2 (ran env) (spawned bs) rs"
    and r: "run env N queries fs =
             Some ([Total (length queries) N] @ map Printed (concat (map printed rs))
                   @ worker_errors rs @ [Done], None, fs')" by blast
  define os where "os = [Total (length queries) N] @ map Printed (concat (map printed rs))
                   @ worker_errors rs @ [Done]"
  have run: "run env N queries fs = Some (os, None, fs')" using r by (simp add: os_def)
  have each: "(v, bs ! v) \<in> set (spawned bs) \<and>
              (\<exists>r\<in>set rs. ran env (v, bs ! v) r \<and>
                  (\<forall>l\<in>set (printed r). Printed l \<in> set os) \<and>
                  (\<forall>e. raised r = Some e \<longrightarrow> WorkerError e \<in> set os) \<and>
                  (raised r = None \<longrightarrow> outcomes (printed r) = length (bs ! v)))"
    if "v < N" "bs ! v \<noteq> []" for v
  proof -
    have m: "(v, bs ! v) \<in> set (spawned bs)"
      using that bs(2) by (intro spawned_member) auto
    from ran_member [OF la m] obtain res where
      res: "res \<in> set rs" "ran env (v, bs ! v) res" by blast
    have p: "Printed l \<in> set os" if "l \<in> set (printed res)" for l
      using that res(1) by (auto simp: os_def)
    have e: "WorkerError e \<in> set os" if "raised res = Some e" for e
      using worker_errors_mem [OF res(1) that] by (simp add: os_def)
    have c: "outcomes (printed res) = length (bs ! v)" if "raised res = None"
      using ran_count(2) [OF res(2) that] by simp
    have "ran env (v, bs ! v) res \<and>
                  (\<forall>l\<in>set (printed res). Printed l \<in> set os) \<and>
                  (\<forall>e. raised res = Some e \<longrightarrow> WorkerError e \<in> set os) \<and>
                  (raised res = None \<longrightarrow> outcomes (printed res) = length (bs ! v))"
      using res(2) p e c by auto
    then show ?thesis using m res(1) by (intro conjI bexI [of _ res]) simp_all
  qed
  have "last os = Done" by (simp add: os_def)
  then show ?thesis using run bs rw each os_def by blast
qed

text \<open>
  Claim C5. \<open>build_driver\<close> launches the browser at most three times, each time on a
  profile directory that \<open>mkdtemp\<close> has just created, one that did not exist before
  when \<open>mkdtemp\<close> only returns names that do not exist; when one of the two \<open>mkdir\<close>
  calls before the loop raises, there is no launch. For every worker whose directories
  can be made and all of whose launches fail with \<open>SessionNotCreatedException\<close>, there
  are exactly three launches, \<open>build_driver\<close> raises the exception of the third, and the
  worker ends with it before printing anything and without touching the files: it
  reports no outcome. \<open>run\<close> still ends with its final line; every non-empty bucket is
  the assignment of a worker that is run, whose lines are all in the output, with a
  worker-error line if it raised and one outcome per query of its assignment if it did
  not.
\<close>

theorem session_failure_ends_one_worker:
  assumes "mkdir_base (host_of env w) = None" and "mkdir_cache (host_of env w) = None"
    and "\<forall>ps. \<exists>u. mkdtemp (host_of env w) ps = Inr u \<and> u \<notin> set ps"
    and "\<forall>a u. chrome (host_of env w) a u = Inl (SessionNotCreatedException (msg a))"
    and "0 < N" and "queries \<noteq> []"
  shows "length (launches (build_driver h ps)) \<le> 3 \<and>
         ((\<forall>ps u. mkdtemp h ps = Inr u \<longrightarrow> u \<notin> set ps) \<longrightarrow>
            (\<forall>(u, before)\<in>set (launches (build_driver h ps)). u \<notin> set before)) \<and>
         ((mkdir_base h \<noteq> None \<or> mkdir_cache h \<noteq> None) \<longrightarrow>
            launches (build_driver h ps) = [] \<and> (\<exists>e. outcome (build_driver h ps) = Inl e)) \<and>
         length (launches (build_driver (host_of env w) (profiles_at env w))) = 3 \<and>
         (\<forall>(u, before)\<in>set (launches (build_driver (host_of env w) (profiles_at env w))).
            u \<notin> set before) \<and>
         outcome (build_driver (host_of env w) (profiles_at env w)) =
           Inl (SessionNotCreatedException (msg 2)) \<and>
         process_worker env w tasks fs =
           Some (\<lparr>printed = [], raised = Some (SessionNotCreatedException (msg 2)),
                  cleaned = False\<rparr>, fs) \<and>
         (\<exists>os bs rs fs'. run env N queries fs = Some (os, None, fs') \<and>
            buckets N queries = Inr bs \<and> length bs = N \<and>
            (\<forall>k<N. bs ! k = filter (\<lambda>(i, q). i mod N = k) (enumerate 0 queries)) \<and>
            run_workers env (spawned bs) fs = Some (rs, fs') \<and>
            os = [Total (length queries) N] @ map Printed (concat (map printed rs))
                   @ worker_errors rs @ [Done] \<and>
            last os = Done \<and>
            (\<forall>v<N. bs ! v \<noteq> [] \<longrightarrow>
               (v, bs ! v) \<in> set (spawned bs) \<and>
               (\<exists>r\<in>set rs. ran env (v, bs ! v) r \<and>
                   (\<forall>l\<in>set (printed r). Printed l \<in> set os) \<and>
                   (\<forall>e. raised r = Some e \<longrightarrow> WorkerError e \<in> set os) \<and>
                   (raised r = None \<longrightarrow> outcomes (printed r) = length (bs ! v)))))"
proof -
  let ?r = "build_driver (host_of env w) (profiles_at env w)"
  have b: "length (launches (build_driver h ps)) \<le> 3"
    using launches_bound [of h "[0, 1, 2]" None None ps "[]"]
    by (simp add: build_driver_def split: option.splits)
  have f: "\<forall>(u, before)\<in>set (launches (build_driver h ps)). u \<notin> set before"
    if "\<forall>ps u. mkdtemp h ps = Inr u \<longrightarrow> u \<notin> set ps"
    using launches_fresh [OF that, of "[]" "[0, 1, 2]" None None ps]
    by (simp add: build_driver_def split: option.splits)
  have m: "launches (build_driver h ps) = [] \<and> (\<exists>e. outcome (build_driver h ps) = Inl e)"
    if "mkdir_base h \<noteq> None \<or> mkdir_cache h \<noteq> None"
    using that by (auto simp: build_driver_def split: option.splits)
  have bd: "?r = build_loop (host_of env w) [0, 1, 2] None None (profiles_at env w) []"
    using assms(1,2) by (simp add: build_driver_def)
  have ct: "\<forall>ps u. mkdtemp (host_of env w) ps = Inr u \<longrightarrow> u \<notin> set ps"
    using assms(3) by (metis Inr_inject)
  have fw: "\<forall>(u, before)\<in>set (launches ?r). u \<notin> set before"
    using launches_fresh [OF ct, of "[]" "[0, 1, 2]" None None "profiles_at env w"]
    by (simp add: bd)
  have tot: "\<forall>ps. \<exists>u. mkdtemp (host_of env w) ps = Inr u" using assms(3) by blast
  have af: "outcome ?r = Inl (SessionNotCreatedException (msg 2))" "length (launches ?r) = 3"
    using all_launches_fail [OF tot assms(4), of "[0, 1, 2]" None None "profiles_at env w" "[]"]
    by (simp_all add: bd)
  have pw: "process_worker env w tasks fs =
           Some (\<lparr>printed = [], raised = Some (SessionNotCreatedException (msg 2)),
                  cleaned = False\<rparr>, fs)"
    using af(1) by (simp add: process_worker_def)
  show ?thesis
    using b f m fw af pw workers_in_run [OF assms(5,6), of env fs] by blast
qed

text \<open>
  Seven queries at concurrency 2 on a machine where worker 0 cannot start a session:
  worker 0 launches the browser three times, each time on a new directory, and ends
  with the third exception; worker 1 is run and handles all of its queries 1, 3 and 5.
\<close>

theorem session_failure_ends_one_worker_witness:
  "mkdir_base (host_of locked_site 0) = None \<and> mkdir_cache (host_of locked_site 0) = None \<and>
   (\<forall>ps. \<exists>u. mkdtemp (host_of locked_site 0) ps = Inr u \<and> u \<notin> set ps) \<and>
   (\<forall>a u. chrome (host_of locked_site 0) a u =
      Inl (SessionNotCreatedException (''profile in use, attempt '' @ str_nat a))) \<and>
   (0::nat) < 2 \<and> seven \<noteq> [] \<and>
   build_driver (host_of locked_site 0) (profiles_at locked_site 0) =
     \<lparr>outcome = Inl (SessionNotCreatedException ''profile in use, attempt 2''),
      launches = [(''chromium_profile_'', []),
                  (''chromium_profile_chromium_profile_'', [''chromium_profile_'']),
                  (''chromium_profile_chromium_profile_chromium_profile_chromium_profile_'',
                   [''chromium_profile_chromium_profile_'', ''chromium_profile_''])],
      profiles = [''chromium_profile_chromium_profile_chromium_profile_chromium_profile_'',
                  ''chromium_profile_chromium_profile_'', ''chromium_profile_'']\<rparr> \<and>
   process_worker locked_site 0 [(0, ''q0''), (2, ''q2'')] start_files =
     Some (\<lparr>printed = [], raised = Some (SessionNotCreatedException ''profile in use, attempt 2''),
            cleaned = False\<rparr>, start_files) \<and>
   spawned [[(0, ''q0''), (2, ''q2''), (4, ''q4''), (6, ''q6'')], [(1, ''q1''), (3, ''q3''), (5, ''q5'')]] =
     [(0, [(0, ''q0''), (2, ''q2''), (4, ''q4''), (6, ''q6'')]), (1, [(1, ''q1''), (3, ''q3''), (5, ''q5'')])] \<and>
   run_workers locked_site
       [(0, [(0, ''q0''), (2, ''q2''), (4, ''q4''), (6, ''q6'')]), (1, [(1, ''q1''), (3, ''q3''), (5, ''q5'')])]
       start_files =
     Some ([\<lparr>printed = [], raised = Some (SessionNotCreatedException ''profile in use, attempt 2''),
              cleaned = False\<rparr>,
            \<lparr>printed = [Query 1 ''q1'', Downloaded 1 ''Song.mp3'',
                       Query 3 ''q3'', NoResults 3, Query 5 ''q5'', NoCompletedFile 5],
              raised = None, cleaned = True\<rparr>],
           (Worker 1, ''Song.mp3'') # start_files)"
proof -
  have h0: "host_of locked_site 0 = locked_host" by (simp add: locked_site_def)
  have k: "mkdir_base (host_of locked_site 0) = None" "mkdir_cache (host_of locked_site 0) = None"
    by (simp_all add: h0 locked_host_def)
  have a: "\<forall>ps. \<exists>u. mkdtemp (host_of locked_site 0) ps = Inr u \<and> u \<notin> set ps"
    by (simp add: h0 locked_host_def fresh_name_new)
  have b: "\<forall>a u. chrome (host_of locked_site 0) a u =
      Inl (SessionNotCreatedException (''profile in use, attempt '' @ str_nat a))"
    by (simp add: h0 locked_host_def)
  have c: "(0::nat) < 2" by simp
  have d: "seven \<noteq> []" by (simp add: seven_def)
  have s2: "str_nat 2 = ''2''" by code_simp
  have bd: "build_driver (host_of locked_site 0) (profiles_at locked_site 0) =
     \<lparr>outcome = Inl (SessionNotCreatedException ''profile in use, attempt 2''),
      launches = [(''chromium_profile_'', []),
                  (''chromium_profile_chromium_profile_'', [''chromium_profile_'']),
                  (''chromium_profile_chromium_profile_chromium_profile_chromium_profile_'',
                   [''chromium_profile_chromium_profile_'', ''chromium_profile_''])],
      profiles = [''chromium_profile_chromium_profile_chromium_profile_chromium_profile_'',
                  ''chromium_profile_chromium_profile_'', ''chromium_profile_'']\<rparr>"
    by code_simp
  have sp: "spawned [[(0, ''q0''), (2, ''q2''), (4, ''q4''), (6, ''q6'')], [(1, ''q1''), (3, ''q3''), (5, ''q5'')]] =
     [(0, [(0, ''q0''), (2, ''q2''), (4, ''q4''), (6, ''q6'')]), (1, [(1, ''q1''), (3, ''q3''), (5, ''q5'')])]"
    by code_simp
  have rw: "run_workers locked_site
       [(0, [(0, ''q0''), (2, ''q2''), (4, ''q4''), (6, ''q6'')]), (1, [(1, ''q1''), (3, ''q3''), (5, ''q5'')])]
       start_files =
     Some ([\<lparr>printed = [], raised = Some (SessionNotCreatedException ''profile in use, attempt 2''),
              cleaned = False\<rparr>,
            \<lparr>printed = [Query 1 ''q1'', Downloaded 1 ''Song.mp3'',
                       Query 3 ''q3'', NoResults 3, Query 5 ''q5'', NoCompletedFile 5],
              raised = None, cleaned = True\<rparr>],
           (Worker 1, ''Song.mp3'') # start_files)"
    by code_simp
  have p0: "process_worker locked_site 0 [(0, ''q0''), (2, ''q2'')] start_files =
     Some (\<lparr>printed = [], raised = Some (SessionNotCreatedException ''profile in use, attempt 2''),
            cleaned = False\<rparr>, start_files)"
    using session_failure_ends_one_worker
      [OF k a b c d, where h = locked_host and ps = "[]" and tasks = "[(0, ''q0''), (2, ''q2'')]"
         and fs = start_files] s2
    by simp
  show ?thesis using k a b c d bd p0 sp rw by blast
qed

end
